theory Spec2Isabelle
  imports Main "HOL-Library.Word"
begin

unbundle bit_operations_syntax

section \<open>Machine integers, bytes and faults\<close>

type_synonym u8 = "8 word"
type_synonym u16 = "16 word"
type_synonym u32 = "32 word"
type_synonym u64 = "64 word"

text \<open>
  Undefined behaviour of the C++ source is a value of the model: a read or write past the
  end of an array, a call through a null pointer, a shift by the width of the type or more.
\<close>

datatype fault = OutOfBounds | NullDeref | UndefinedShift

text \<open>
  The wire structs are \<^verbatim>\<open>#pragma pack(push, 1)\<close> and are read by a pointer cast, so a
  field is the little-endian value of its bytes on the hosts the program is built for.
\<close>

definition rd32 :: "u8 list \<Rightarrow> nat \<Rightarrow> u32" where
  "rd32 d off =
     ucast (d ! off) OR push_bit 8 (ucast (d ! (off + 1)))
       OR push_bit 16 (ucast (d ! (off + 2))) OR push_bit 24 (ucast (d ! (off + 3)))"

definition rd64 :: "u8 list \<Rightarrow> nat \<Rightarrow> u64" where
  "rd64 d off = ucast (rd32 d off) OR push_bit 32 (ucast (rd32 d (off + 4)))"

definition le32 :: "u32 \<Rightarrow> u8 list" where
  "le32 w = [ucast w, ucast (drop_bit 8 w), ucast (drop_bit 16 w), ucast (drop_bit 24 w)]"

definition le64 :: "u64 \<Rightarrow> u8 list" where
  "le64 w = le32 (ucast w) @ le32 (ucast (drop_bit 32 w))"

section \<open>Protocol constants and packed structs (NetplayProtocol.h)\<close>

definition kNetplayMaxPlayers :: int where "kNetplayMaxPlayers = 4"
definition INPUT_BUF_SIZE :: nat where "INPUT_BUF_SIZE = 256"
definition DESYNC_CHECK_INTERVAL :: u32 where "DESYNC_CHECK_INTERVAL = 60"
definition kBlobChunkSize :: nat where "kBlobChunkSize = 0x10000"
definition Blob_MAX :: nat where "Blob_MAX = 5"

definition Chan_Control :: nat where "Chan_Control = 0"
definition Chan_Input :: nat where "Chan_Input = 1"

definition Msg_BlobStart :: u8 where "Msg_BlobStart = 0x12"
definition Msg_BlobChunk :: u8 where "Msg_BlobChunk = 0x13"
definition Msg_BlobEnd :: u8 where "Msg_BlobEnd = 0x14"
definition Msg_StartGame :: u8 where "Msg_StartGame = 0x16"
definition Msg_DesyncAlert :: u8 where "Msg_DesyncAlert = 0x20"

record InputFrame =
  FrameNum :: u32
  KeyMask :: u32
  Touching :: u8
  TouchX :: u16
  TouchY :: u16
  LidClosed :: u8
  Checksum :: u32

definition zero_frame :: InputFrame where
  "zero_frame = \<lparr>FrameNum = 0, KeyMask = 0, Touching = 0, TouchX = 0, TouchY = 0,
     LidClosed = 0, Checksum = 0\<rparr>"

section \<open>BlobTransfer: the receiving side\<close>

text \<open>
  The receiver's field \<^verbatim>\<open>Type\<close> is \<open>BType\<close> here (the MP packet header has a field of
  the same name). \<open>Buffer\<close> is the \<^verbatim>\<open>std::vector<u8>\<close>.
\<close>

record BlobTransfer =
  BType :: u8
  TotalLen :: u32
  ReceivedLen :: u32
  Buffer :: "u8 list"
  Complete :: bool
  Receiving :: bool

definition blob_new :: BlobTransfer where
  "blob_new = \<lparr>BType = 0, TotalLen = 0, ReceivedLen = 0, Buffer = [], Complete = False,
     Receiving = False\<rparr>"

text \<open>The loop \<^verbatim>\<open>for (i < TotalLen) checksum += Buffer[i]\<close> on a \<^verbatim>\<open>u32\<close> accumulator.\<close>

fun checksum_loop :: "u8 list \<Rightarrow> u32 \<Rightarrow> u32" where
  "checksum_loop [] acc = acc"
| "checksum_loop (b # bs) acc = checksum_loop bs (acc + ucast b)"

text \<open>
  \<^verbatim>\<open>BlobTransfer::OnMessage(data, len)\<close>; \<open>len\<close> is the length of \<open>data\<close>, a \<^verbatim>\<open>u32\<close>.
  The bounds check of a chunk adds two \<^verbatim>\<open>u32\<close> values, so it wraps; a chunk that passes
  the wrapped check and still ends past the buffer makes \<^verbatim>\<open>memcpy\<close> write out of bounds.
\<close>

definition OnMessage :: "u8 list \<Rightarrow> BlobTransfer \<Rightarrow> fault + (bool \<times> BlobTransfer)" where
  "OnMessage data b =
     (let len = length data in
      if len < 1 then Inr (False, b)
      else if data ! 0 = Msg_BlobStart then
        (if len < 6 then Inr (False, b)
         else Inr (False, b\<lparr>BType := data ! 1, TotalLen := rd32 data 2, ReceivedLen := 0,
                Buffer := replicate (unat (rd32 data 2)) 0, Complete := False,
                Receiving := True\<rparr>))
      else if data ! 0 = Msg_BlobChunk then
        (if \<not> Receiving b then Inr (False, b)
         else if len < 5 then Inr (False, b)
         else
           (let chunkLen = (word_of_nat len :: u32) - 5; offset = rd32 data 1 in
            if offset + chunkLen > TotalLen b then Inr (False, b)
            else if length (Buffer b) < unat offset + unat chunkLen then Inl OutOfBounds
            else Inr (False, b\<lparr>Buffer := take (unat offset) (Buffer b) @ drop 5 data
                         @ drop (unat offset + unat chunkLen) (Buffer b),
                       ReceivedLen := ReceivedLen b + chunkLen\<rparr>)))
      else if data ! 0 = Msg_BlobEnd then
        (if \<not> Receiving b then Inr (False, b)
         else if len < 6 then Inr (False, b)
         else if length (Buffer b) < unat (TotalLen b) then Inl OutOfBounds
         else if checksum_loop (take (unat (TotalLen b)) (Buffer b)) 0 \<noteq> rd32 data 2
           then Inr (False, b\<lparr>Receiving := False\<rparr>)
         else Inr (True, b\<lparr>Complete := True, Receiving := False\<rparr>))
      else Inr (False, b))"

section \<open>The Netplay session\<close>

text \<open>
  Modelled from the spec: class \<^verbatim>\<open>NDS\<close> (the emulator instance) is not part of these
  sources. The record keeps what the session writes through \<^verbatim>\<open>SetKeyMask\<close>,
  \<^verbatim>\<open>TouchScreen\<close>/\<^verbatim>\<open>ReleaseScreen\<close> and \<^verbatim>\<open>SetLidClosed\<close>, and the memory that
  \<^verbatim>\<open>ComputeStateHash\<close> reads: the \<^verbatim>\<open>MainRAMMask + 1\<close> bytes of main RAM and the bytes of
  the two register files \<^verbatim>\<open>ARM9.R\<close> and \<^verbatim>\<open>ARM7.R\<close>.
\<close>

record NDS =
  nds_KeyMask :: u32
  nds_Touch :: "(u16 \<times> u16) option"
  nds_LidClosed :: bool
  MainRAM :: "u8 list"
  ARM9_R :: "u8 list"
  ARM7_R :: "u8 list"

text \<open>What the transport was asked to send: \<^verbatim>\<open>Broadcast(data, channel)\<close> and
  \<^verbatim>\<open>SendTo(peerIdx, data, channel)\<close>.\<close>

datatype sent = Broadcast nat "u8 list" | SendTo int nat "u8 list"

text \<open>
  The fields of \<^verbatim>\<open>class NetplaySession\<close>. The arrays are functions of the index and every
  access checks the bound the array has in the source. \<open>Current\<close> says that the static
  pointer \<^verbatim>\<open>NetplaySession::Current\<close> is this session; \<open>TransportConnected\<close> is
  \<^verbatim>\<open>Transport.IsConnected()\<close> and \<open>Outbox\<close> the sends asked of the transport;
  \<open>HasOnDesync\<close> and \<open>HasOnDisconnect\<close> say that the callback is set, and \<open>DesyncCalls\<close>
  and \<open>DisconnectCalls\<close> list the calls made to them.
\<close>

record NetplaySession =
  Instances :: "nat \<Rightarrow> NDS option"
  NumInstances :: int
  LocalPlayerID :: int
  Active :: bool
  HostMode :: bool
  InputBuf :: "nat \<Rightarrow> nat \<Rightarrow> InputFrame"
  InputReady :: "nat \<Rightarrow> nat \<Rightarrow> bool"
  InputDelay :: int
  CurrentFrame :: u32
  StartFrame :: u32
  InstanceScanlines :: "nat \<Rightarrow> u32"
  ThreadsRunning :: bool
  LastStateHash :: u64
  LastHashFrame :: u32
  Current :: bool
  TransportConnected :: bool
  Outbox :: "sent list"
  BlobRecv :: "nat \<Rightarrow> BlobTransfer"
  HasOnDesync :: bool
  DesyncCalls :: "(u32 \<times> u64 \<times> u64) list"
  HasOnDisconnect :: bool
  DisconnectCalls :: "(int \<times> u8) list"

text \<open>The constructor and the in-class initialisers.\<close>

definition session_new :: NetplaySession where
  "session_new = \<lparr>Instances = (\<lambda>_. None), NumInstances = 0, LocalPlayerID = 0,
     Active = False, HostMode = False, InputBuf = (\<lambda>_ _. zero_frame),
     InputReady = (\<lambda>_ _. False), InputDelay = 4, CurrentFrame = 0, StartFrame = 0,
     InstanceScanlines = (\<lambda>_. 0), ThreadsRunning = False, LastStateHash = 0,
     LastHashFrame = 0, Current = False, TransportConnected = False, Outbox = [],
     BlobRecv = (\<lambda>_. blob_new), HasOnDesync = False, DesyncCalls = [],
     HasOnDisconnect = False, DisconnectCalls = []\<rparr>"

subsection \<open>Init\<close>

definition neutral :: "nat \<Rightarrow> InputFrame" where
  "neutral f = \<lparr>FrameNum = word_of_nat f, KeyMask = 0xFFF, Touching = 0, TouchX = 0,
     TouchY = 0, LidClosed = 0, Checksum = 0\<rparr>"

text \<open>The body of the inner loop of \<^verbatim>\<open>Init\<close>, for player \<open>p\<close> and frame \<open>f\<close>.\<close>

definition prefill :: "nat \<Rightarrow> nat \<Rightarrow> NetplaySession \<Rightarrow> NetplaySession" where
  "prefill p f s =
     s\<lparr>InputBuf := (InputBuf s)(p := (InputBuf s p)(f mod INPUT_BUF_SIZE := neutral f)),
       InputReady := (InputReady s)(p := (InputReady s p)(f mod INPUT_BUF_SIZE := True))\<rparr>"

definition Init :: "int \<Rightarrow> int \<Rightarrow> int \<Rightarrow> NetplaySession \<Rightarrow> bool \<times> NetplaySession" where
  "Init localPlayerID numPlayers inputDelay s =
     (if numPlayers < 2 then (False, s)
      else if numPlayers > kNetplayMaxPlayers then (False, s)
      else if localPlayerID < 0 then (False, s)
      else if localPlayerID \<ge> numPlayers then (False, s)
      else
        (let s1 = s\<lparr>LocalPlayerID := localPlayerID, NumInstances := numPlayers,
                    InputDelay := inputDelay, CurrentFrame := 0, StartFrame := 0,
                    HostMode := (localPlayerID = 0),
                    InputBuf := (\<lambda>_ _. zero_frame), InputReady := (\<lambda>_ _. False)\<rparr>;
             s2 = fold (\<lambda>p. fold (prefill p) [0..<nat inputDelay]) [0..<nat numPlayers] s1
         in (True, s2\<lparr>Current := True, Active := True\<rparr>)))"

text \<open>
  \<^verbatim>\<open>CreateInstances\<close>: instance \<open>i\<close> is what the arguments builder and \<^verbatim>\<open>Reset\<close> make,
  here \<open>mk i\<close>. Registering with the local MP bus and muting the audio of the other
  instances touch nothing this record holds.
\<close>

definition CreateInstances :: "(nat \<Rightarrow> NDS) \<Rightarrow> NetplaySession \<Rightarrow> NetplaySession" where
  "CreateInstances mk s =
     fold (\<lambda>i s'. s'\<lparr>Instances := (Instances s')(i \<mapsto> mk i)\<rparr>) [0..<nat (NumInstances s)] s"

subsection \<open>Input ring\<close>


definition SetRemoteInput :: "int \<Rightarrow> InputFrame \<Rightarrow> NetplaySession \<Rightarrow> fault + NetplaySession" where
  "SetRemoteInput playerID input s =
     (if playerID < 0 then Inr s
      else if playerID \<ge> NumInstances s then Inr s
      else if kNetplayMaxPlayers \<le> playerID then Inl OutOfBounds
      else
        (let bufIdx = unat (FrameNum input) mod INPUT_BUF_SIZE; p = nat playerID in
         Inr (s\<lparr>InputBuf := (InputBuf s)(p := (InputBuf s p)(bufIdx := input)),
               InputReady := (InputReady s)(p := (InputReady s p)(bufIdx := True))\<rparr>)))"

definition ReadyForFrame :: "u32 \<Rightarrow> NetplaySession \<Rightarrow> bool" where
  "ReadyForFrame frameNum s =
     list_all (\<lambda>i. InputReady s i (unat frameNum mod INPUT_BUF_SIZE))
       [0..<nat (NumInstances s)]"

text \<open>What \<^verbatim>\<open>ApplyInputs\<close> does to one instance with one slot of the ring.\<close>

definition apply_input :: "InputFrame \<Rightarrow> NDS \<Rightarrow> NDS" where
  "apply_input input n =
     n\<lparr>nds_KeyMask := KeyMask input,
       nds_Touch := (if Touching input \<noteq> 0 then Some (TouchX input, TouchY input) else None),
       nds_LidClosed := (LidClosed input \<noteq> 0)\<rparr>"

text \<open>The first loop of \<^verbatim>\<open>ApplyInputs\<close>; a null instance pointer is dereferenced.\<close>

fun apply_loop ::
  "nat list \<Rightarrow> (nat \<Rightarrow> InputFrame) \<Rightarrow> (nat \<Rightarrow> NDS option) \<Rightarrow> fault + (nat \<Rightarrow> NDS option)" where
  "apply_loop [] slot inst = Inr inst"
| "apply_loop (i # is) slot inst =
     (case inst i of
        None \<Rightarrow> Inl NullDeref
      | Some n \<Rightarrow> apply_loop is slot (inst(i \<mapsto> apply_input (slot i) n)))"

definition ApplyInputs :: "u32 \<Rightarrow> NetplaySession \<Rightarrow> fault + NetplaySession" where
  "ApplyInputs frame s =
     (let bufIdx = unat frame mod INPUT_BUF_SIZE; n = nat (NumInstances s) in
      if nat kNetplayMaxPlayers < n then Inl OutOfBounds
      else
        (case apply_loop [0..<n] (\<lambda>i. InputBuf s i bufIdx) (Instances s) of
           Inl e \<Rightarrow> Inl e
         | Inr inst \<Rightarrow>
             Inr (s\<lparr>Instances := inst,
                   InputReady := fold (\<lambda>i r. r(i := (r i)(bufIdx := False))) [0..<n]
                                   (InputReady s)\<rparr>)))"

subsection \<open>The frame loop\<close>

text \<open>
  Between the two barrier waits of \<^verbatim>\<open>RunFrame\<close> each worker thread runs
  \<^verbatim>\<open>Instances[i]->RunFrame()\<close> and stores the scanline count. The emulator is not part of
  these sources: \<open>emu i\<close> is the frame instance \<open>i\<close> runs, and the model takes the joint
  effect of the workers, one instance after the other.
\<close>

definition run_instances ::
  "(nat \<Rightarrow> NDS \<Rightarrow> NDS \<times> u32) \<Rightarrow> NetplaySession \<Rightarrow> NetplaySession" where
  "run_instances emu s =
     fold (\<lambda>i s'. case Instances s' i of
                    None \<Rightarrow> s'
                  | Some n \<Rightarrow> s'\<lparr>Instances := (Instances s')(i \<mapsto> fst (emu i n)),
                                 InstanceScanlines := (InstanceScanlines s')(i := snd (emu i n))\<rparr>)
       [0..<nat (NumInstances s)] s"

text \<open>
  \<^verbatim>\<open>ComputeStateHash\<close>: one streaming XXH64 state with seed 0, fed per instance with main
  RAM, the ARM9 registers and the ARM7 registers; a null instance is skipped. \<open>xxh\<close> is
  the library's digest of the bytes fed in.
\<close>

definition hashed_bytes :: "NetplaySession \<Rightarrow> u8 list" where
  "hashed_bytes s =
     concat (map (\<lambda>i. case Instances s i of
                        None \<Rightarrow> []
                      | Some n \<Rightarrow> MainRAM n @ ARM9_R n @ ARM7_R n)
              [0..<nat (NumInstances s)])"

definition ComputeStateHash :: "(u8 list \<Rightarrow> u64) \<Rightarrow> NetplaySession \<Rightarrow> u64" where
  "ComputeStateHash xxh s = xxh (hashed_bytes s)"

text \<open>The packed \<^verbatim>\<open>MsgDesyncAlert\<close>: type, frame, hash; 13 bytes.\<close>

definition MsgDesyncAlert :: "u32 \<Rightarrow> u64 \<Rightarrow> u8 list" where
  "MsgDesyncAlert frame hash = Msg_DesyncAlert # le32 frame @ le64 hash"

definition desync_check :: "(u8 list \<Rightarrow> u64) \<Rightarrow> NetplaySession \<Rightarrow> NetplaySession" where
  "desync_check xxh s =
     (let hash = ComputeStateHash xxh s;
          s' = (if TransportConnected s
                then s\<lparr>Outbox := Outbox s
                        @ [Broadcast Chan_Control (MsgDesyncAlert (CurrentFrame s) hash)]\<rparr>
                else s)
      in s'\<lparr>LastStateHash := hash, LastHashFrame := CurrentFrame s\<rparr>)"

definition RunFrame ::
  "(nat \<Rightarrow> NDS \<Rightarrow> NDS \<times> u32) \<Rightarrow> (u8 list \<Rightarrow> u64) \<Rightarrow> NetplaySession
     \<Rightarrow> fault + (u32 \<times> NetplaySession)" where
  "RunFrame emu xxh s =
     (if \<not> Active s then Inr (0, s)
      else if NumInstances s = 0 then Inr (0, s)
      else
        (case ApplyInputs (CurrentFrame s) s of
           Inl e \<Rightarrow> Inl e
         | Inr s1 \<Rightarrow>
             (let s2 = run_instances emu (s1\<lparr>ThreadsRunning := True\<rparr>);
                  s3 = (if 0 < CurrentFrame s2
                          \<and> CurrentFrame s2 mod DESYNC_CHECK_INTERVAL = 0
                        then desync_check xxh s2 else s2);
                  s4 = s3\<lparr>CurrentFrame := CurrentFrame s3 + 1\<rparr>
              in if LocalPlayerID s4 < 0 then Inl OutOfBounds
                 else if kNetplayMaxPlayers \<le> LocalPlayerID s4 then Inl OutOfBounds
                 else Inr (InstanceScanlines s4 (nat (LocalPlayerID s4)), s4))))"

subsection \<open>Control messages\<close>

text \<open>
  The loop of \<^verbatim>\<open>HandleControlMessage\<close> over the receivers \<^verbatim>\<open>BlobRecv[0 .. Blob_MAX)\<close>: the
  message is given to one receiver after the other until one of them returns true.
\<close>

fun blob_loop ::
  "nat list \<Rightarrow> u8 list \<Rightarrow> (nat \<Rightarrow> BlobTransfer) \<Rightarrow> fault + (nat \<Rightarrow> BlobTransfer)" where
  "blob_loop [] data recv = Inr recv"
| "blob_loop (i # is) data recv =
     (case OnMessage data (recv i) of
        Inl e \<Rightarrow> Inl e
      | Inr (fin, b) \<Rightarrow>
          if fin then Inr (recv(i := b)) else blob_loop is data (recv(i := b)))"

definition HandleControlMessage ::
  "int \<Rightarrow> u8 list \<Rightarrow> NetplaySession \<Rightarrow> fault + NetplaySession" where
  "HandleControlMessage peerIdx data s =
     (let len = length data in
      if len < 1 then Inr s
      else if data ! 0 = 0x10 then
        (if len < 11 then Inr s
         else Inr (s\<lparr>Outbox := Outbox s @ [SendTo peerIdx Chan_Control [0x11, 0]]\<rparr>))
      else if data ! 0 = 0x11 then Inr s
      else if data ! 0 = Msg_BlobStart \<or> data ! 0 = Msg_BlobChunk \<or> data ! 0 = Msg_BlobEnd then
        (case blob_loop [0..<Blob_MAX] data (BlobRecv s) of
           Inl e \<Rightarrow> Inl e
         | Inr recv \<Rightarrow> Inr (s\<lparr>BlobRecv := recv\<rparr>))
      else if data ! 0 = 0x15 then Inr s
      else if data ! 0 = Msg_StartGame then
        (if len < 6 then Inr s
         else Inr (s\<lparr>CurrentFrame := rd32 data 1, InputDelay := uint (data ! 5)\<rparr>))
      else if data ! 0 = Msg_DesyncAlert then
        (if len < 13 then Inr s
         else if rd32 data 1 = LastHashFrame s \<and> rd64 data 5 \<noteq> LastStateHash s then
           (if HasOnDesync s
            then Inr (s\<lparr>DesyncCalls := DesyncCalls s
                         @ [(rd32 data 1, LastStateHash s, rd64 data 5)]\<rparr>)
            else Inr s)
         else Inr s)
      else if data ! 0 = 0xFF then
        (if len < 2 then Inr s
         else if HasOnDisconnect s
           then Inr (s\<lparr>DisconnectCalls := DisconnectCalls s @ [(peerIdx, data ! 1)]\<rparr>)
         else Inr s)
      else Inr s)"

section \<open>LAN: the MP packet queue\<close>

text \<open>
  Modelled from the spec: \<^verbatim>\<open>MPPacketHeader\<close> is declared in \<^verbatim>\<open>LAN.h\<close>, which is not part
  of these sources. The fields are the ones the code reads and writes, with the widths of
  the variables it copies them to. \<open>Magic\<close> holds the receive wall-clock once the network
  thread has queued the packet.
\<close>

record MPPacketHeader =
  Magic :: u32
  SenderID :: u32
  Type :: u32
  Length :: u32
  Timestamp :: u64

text \<open>A queued \<^verbatim>\<open>ENetPacket\<close>: the header, the bytes after it, and the peer in
  \<^verbatim>\<open>userData\<close>.\<close>

record ENetPacket =
  header :: MPPacketHeader
  payload :: "u8 list"
  userData :: "nat option"

datatype PlayerStatus =
  Player_None | Player_Client | Player_Host | Player_Connecting | Player_Disconnected

text \<open>
  Modelled from the spec: \<^verbatim>\<open>struct Player\<close> is declared in \<^verbatim>\<open>LAN.h\<close>; its fields are those
  of the spec's data model and of the code that uses them.
\<close>

record Player =
  ID :: int
  Name :: "u8 list"
  Status :: PlayerStatus
  Address :: u32
  IsLocalPlayer :: bool
  Ping :: u32

definition player_zero :: Player where
  "player_zero = \<lparr>ID = 0, Name = [], Status = Player_None, Address = 0,
     IsLocalPlayer = False, Ping = 0\<rparr>"

text \<open>What the host asked of ENet: a command sent to a peer, a peer disconnected, the
  player list broadcast.\<close>

datatype host_out =
  CmdTo nat "u8 list" | PeerDisconnect nat | PlayerListBroadcast int "Player list"

text \<open>
  The fields of \<^verbatim>\<open>class LAN\<close> the modelled functions use. \<open>Host\<close> says that the ENet host
  exists. \<open>PeerData\<close> is \<^verbatim>\<open>peer->data\<close>: the index of the player slot the peer points to.
  \<open>Destroyed\<close> lists the packets given to \<^verbatim>\<open>enet_packet_destroy\<close>, \<open>Slept\<close> the
  milliseconds the emulation thread has slept, \<open>HostOut\<close> the requests made of ENet.
\<close>

record LAN =
  Host :: bool
  RXQueue :: "ENetPacket list"
  Destroyed :: "ENetPacket list"
  Slept :: nat
  MyPlayerID :: int
  ConnectedBitmask :: u16
  MPRecvTimeout :: int
  LastHostID :: int
  LastHostPeer :: "nat option"
  Players :: "nat \<Rightarrow> Player"
  NumPlayers :: int
  MaxPlayers :: int
  RemotePeers :: "nat \<Rightarrow> nat option"
  PeerData :: "nat \<Rightarrow> nat option"
  HostOut :: "host_out list"

definition lan_new :: LAN where
  "lan_new = \<lparr>Host = False, RXQueue = [], Destroyed = [], Slept = 0, MyPlayerID = 0,
     ConnectedBitmask = 0, MPRecvTimeout = 25, LastHostID = - 1, LastHostPeer = None,
     Players = (\<lambda>_. player_zero), NumPlayers = 0, MaxPlayers = 0,
     RemotePeers = (\<lambda>_. None), PeerData = (\<lambda>_. None), HostOut = []\<rparr>"

subsection \<open>ProcessLAN and RecvPacketGeneric\<close>

text \<open>
  The loop of \<^verbatim>\<open>ProcessLAN(type)\<close> over the front of the queue, with \<open>time_last\<close> the clock
  read on entry. It yields \<^verbatim>\<open>found\<close>, the queue left, and the packets destroyed.
\<close>

fun discard_stale ::
  "int \<Rightarrow> u32 \<Rightarrow> ENetPacket list \<Rightarrow> bool \<times> ENetPacket list \<times> ENetPacket list" where
  "discard_stale type time_last [] = (False, [], [])"
| "discard_stale type time_last (p # q) =
     (if Magic (header p) > time_last \<or> Magic (header p) < time_last - 500 then
        (case discard_stale type time_last q of (found, q', d) \<Rightarrow> (found, q', p # d))
      else if type = 2 then (True, p # q, [])
      else if type = 1 then
        (if Type (header p) = 0 then (True, p # q, []) else (False, q, [p]))
      else (False, p # q, []))"

definition ProcessLAN :: "int \<Rightarrow> u32 \<Rightarrow> LAN \<Rightarrow> LAN" where
  "ProcessLAN type time_last s =
     (if \<not> Host s then s
      else
        (case discard_stale type time_last (RXQueue s) of
           (found, q, d) \<Rightarrow>
             (let s' = s\<lparr>RXQueue := q, Destroyed := Destroyed s @ d\<rparr> in
              if found then s'
              else if type = 2 then s'\<lparr>Slept := Slept s' + 2\<rparr>
              else s')))"

text \<open>
  \<^verbatim>\<open>RecvPacketGeneric(packet, block, timestamp)\<close>. \<open>now\<close> is the clock \<^verbatim>\<open>ProcessLAN\<close>
  reads; \<open>arrived\<close> are the packets the network thread queues between the unlock in
  \<^verbatim>\<open>ProcessLAN\<close> and the lock taken here (the sleep included). The result is the return
  value, the bytes copied to \<^verbatim>\<open>packet\<close>, the value stored to \<^verbatim>\<open>*timestamp\<close> if any, and
  the state. The header's \<open>Length\<close> is not checked against the packet: a copy longer than
  the payload reads past its end.
\<close>

definition RecvPacketGeneric ::
  "bool \<Rightarrow> u32 \<Rightarrow> ENetPacket list \<Rightarrow> LAN
     \<Rightarrow> fault + (u32 \<times> u8 list \<times> u64 option \<times> LAN)" where
  "RecvPacketGeneric block now arrived s =
     (if \<not> Host s then Inr (0, [], None, s)
      else
        (let s1 = ProcessLAN (if block then 2 else 1) now s;
             s2 = s1\<lparr>RXQueue := RXQueue s1 @ arrived\<rparr>
         in case RXQueue s2 of
              [] \<Rightarrow> Inr (0, [], None, s2)
            | p # q \<Rightarrow>
                (let len = (if Length (header p) > 2048 then 2048 else Length (header p));
                     s3 = s2\<lparr>RXQueue := q, Destroyed := Destroyed s2 @ [p]\<rparr>
                 in if len = 0 then Inr (0, [], Some (Timestamp (header p)), s3)
                    else if length (payload p) < unat len then Inl OutOfBounds
                    else Inr (len, take (unat len) (payload p), Some (Timestamp (header p)),
                           if Type (header p) = 1
                           then s3\<lparr>LastHostID := sint (SenderID (header p)),
                                   LastHostPeer := userData p\<rparr>
                           else s3))))"

definition RecvPacket ::
  "u32 \<Rightarrow> ENetPacket list \<Rightarrow> LAN \<Rightarrow> fault + (u32 \<times> u8 list \<times> u64 option \<times> LAN)" where
  "RecvPacket now arrived s = RecvPacketGeneric False now arrived s"

definition RecvHostPacket ::
  "u32 \<Rightarrow> ENetPacket list \<Rightarrow> LAN \<Rightarrow> fault + (u32 \<times> u8 list \<times> u64 option \<times> LAN)" where
  "RecvHostPacket now arrived s = RecvPacketGeneric True now arrived s"

subsection \<open>RecvReplies\<close>

text \<open>
  What the emulation thread observes on one pass of the outer loop of \<^verbatim>\<open>RecvReplies\<close>:
  the packets the network thread has queued since the last pass, the value the loads of
  \<^verbatim>\<open>ConnectedBitmask\<close> give during the pass, and the clock read after the queue is
  drained.
\<close>

record tick =
  t_arrived :: "ENetPacket list"
  t_connmask :: u16
  t_clock :: u32

text \<open>
  The copy of one accepted reply into the caller's buffer \<^verbatim>\<open>packets\<close>, which has \<open>nslots\<close>
  slots of 1024 bytes, slot \<^verbatim>\<open>aid - 1\<close> for association id \<^verbatim>\<open>aid\<close>; and the update of
  \<^verbatim>\<open>ret\<close>. A reply of length 0 is accepted and copies nothing.
\<close>

definition collect :: "nat \<Rightarrow> ENetPacket \<Rightarrow> u16 \<Rightarrow> fault + (u16 \<times> (nat \<times> u8 list) list)" where
  "collect nslots p ret =
     (let len = (if Length (header p) > 1024 then 1024 else Length (header p));
          aid = drop_bit 16 (Type (header p))
      in if Length (header p) = 0 then Inr (ret, [])
         else if aid = 0 then Inl OutOfBounds
         else if nslots < unat aid then Inl OutOfBounds
         else if length (payload p) < unat len then Inl OutOfBounds
         else if 32 \<le> unat aid then Inl UndefinedShift
         else Inr (ret OR ucast (push_bit (unat aid) (1 :: u32)),
                   [(unat aid - 1, take (unat len) (payload p))]))"

text \<open>
  The inner loop, over the queue: it yields whether the function returns from inside the
  loop, \<^verbatim>\<open>ret\<close>, \<^verbatim>\<open>myinstmask\<close>, the copies made, the queue left and the packets
  destroyed.
\<close>

definition drained ::
  "ENetPacket \<Rightarrow> (nat \<times> u8 list) list
    \<Rightarrow> fault + (bool \<times> u16 \<times> u16 \<times> (nat \<times> u8 list) list \<times> ENetPacket list \<times> ENetPacket list)
    \<Rightarrow> fault + (bool \<times> u16 \<times> u16 \<times> (nat \<times> u8 list) list \<times> ENetPacket list \<times> ENetPacket list)"
  where
  "drained p c r =
     (case r of
        Inl e \<Rightarrow> Inl e
      | Inr (returned, ret, mym, c', rest, d) \<Rightarrow> Inr (returned, ret, mym, c @ c', rest, p # d))"

fun drain ::
  "nat \<Rightarrow> u64 \<Rightarrow> u16 \<Rightarrow> u16 \<Rightarrow> ENetPacket list \<Rightarrow> u16 \<Rightarrow> u16
    \<Rightarrow> fault + (bool \<times> u16 \<times> u16 \<times> (nat \<times> u8 list) list \<times> ENetPacket list \<times> ENetPacket list)"
  where
  "drain nslots timestamp aidmask connmask [] ret mym = Inr (False, ret, mym, [], [], [])"
| "drain nslots timestamp aidmask connmask (p # q) ret mym =
     (if (Type (header p) AND 0xFFFF) \<noteq> 2 then
        drained p [] (drain nslots timestamp aidmask connmask q ret mym)
      else if Timestamp (header p) < timestamp - 0x100000 then
        drained p [] (drain nslots timestamp aidmask connmask q ret mym)
      else
        (case collect nslots p ret of
           Inl e \<Rightarrow> Inl e
         | Inr (ret', c) \<Rightarrow>
             if 32 \<le> unat (SenderID (header p)) then Inl UndefinedShift
             else
               (let mym' = mym OR ucast (push_bit (unat (SenderID (header p))) (1 :: u32)) in
                if (mym' AND connmask) = connmask \<or> (ret' AND aidmask) = aidmask
                then Inr (True, ret', mym', c, q, [p])
                else drained p c (drain nslots timestamp aidmask connmask q ret' mym'))))"

text \<open>
  The outer loop, one pass per observation; it runs out of observations with \<open>None\<close>.
  The result adds the milliseconds slept. \<^verbatim>\<open>remaining\<close> is computed on \<^verbatim>\<open>int\<close>; the
  model takes it on the integers.
\<close>

fun reply_loop ::
  "nat \<Rightarrow> u64 \<Rightarrow> u16 \<Rightarrow> u32 \<Rightarrow> int \<Rightarrow> tick list \<Rightarrow> ENetPacket list \<Rightarrow> u16 \<Rightarrow> u16
    \<Rightarrow> (fault + (u16 \<times> (nat \<times> u8 list) list \<times> ENetPacket list \<times> ENetPacket list \<times> nat)) option"
  where
  "reply_loop nslots timestamp aidmask timeout_start timeout [] queue ret mym = None"
| "reply_loop nslots timestamp aidmask timeout_start timeout (r # rs) queue ret mym =
     (case drain nslots timestamp aidmask (t_connmask r) (queue @ t_arrived r) ret mym of
        Inl e \<Rightarrow> Some (Inl e)
      | Inr (returned, ret', mym', c, rest, d) \<Rightarrow>
          if returned then Some (Inr (ret', c, rest, d, 0))
          else if timeout - sint (t_clock r - timeout_start) \<le> 0
            then Some (Inr (ret', c, rest, d, 0))
          else
            (case reply_loop nslots timestamp aidmask timeout_start timeout rs rest ret' mym' of
               None \<Rightarrow> None
             | Some (Inl e) \<Rightarrow> Some (Inl e)
             | Some (Inr (ret'', c', rest', d', sl)) \<Rightarrow>
                 Some (Inr (ret'', c @ c', rest', d @ d', sl + 1))))"

text \<open>
  \<^verbatim>\<open>RecvReplies(inst, packets, timestamp, aidmask)\<close>. \<open>timeout_start\<close> is the clock read
  before the loop. The result is the return value, the copies made into \<^verbatim>\<open>packets\<close> (slot
  and bytes), and the state.
\<close>

definition RecvReplies ::
  "nat \<Rightarrow> tick list \<Rightarrow> u32 \<Rightarrow> u64 \<Rightarrow> u16 \<Rightarrow> LAN
    \<Rightarrow> (fault + (u16 \<times> (nat \<times> u8 list) list \<times> LAN)) option" where
  "RecvReplies nslots ticks timeout_start timestamp aidmask s =
     (if \<not> Host s then Some (Inr (0, [], s))
      else if MyPlayerID s < 0 then Some (Inl UndefinedShift)
      else if 32 \<le> MyPlayerID s then Some (Inl UndefinedShift)
      else
        (let myinstmask = (ucast (push_bit (nat (MyPlayerID s)) (1 :: u32)) :: u16);
             connmask = ConnectedBitmask s
         in if (myinstmask AND connmask) = connmask then Some (Inr (0, [], s))
            else
              (case reply_loop nslots timestamp aidmask timeout_start (MPRecvTimeout s) ticks
                      (RXQueue s) 0 myinstmask of
                 None \<Rightarrow> None
               | Some (Inl e) \<Rightarrow> Some (Inl e)
               | Some (Inr (ret, c, rest, d, sl)) \<Rightarrow>
                   Some (Inr (ret, c, s\<lparr>RXQueue := rest, Destroyed := Destroyed s @ d,
                                        Slept := Slept s + sl\<rparr>)))))"

subsection \<open>The host's control plane\<close>

definition kLANMagic :: u32 where "kLANMagic = 0x504E414C"
definition kProtocolVersion :: u32 where "kProtocolVersion = 1"
definition kLocalhost :: u32 where "kLocalhost = 0x0100007F"

datatype ENetEvent = Connect nat u32 | Disconnect nat | Receive nat u32 "u8 list" | NoEvent

text \<open>The 11 bytes of \<^verbatim>\<open>Cmd_ClientInit\<close>: command, magic, version, id, \<^verbatim>\<open>MaxPlayers\<close>.\<close>

definition ClientInit :: "nat \<Rightarrow> int \<Rightarrow> u8 list" where
  "ClientInit newid maxplayers =
     1 # le32 kLANMagic @ le32 kProtocolVersion @ [word_of_nat newid, word_of_int maxplayers]"

text \<open>The search for the player number: the loop \<^verbatim>\<open>for (id = 0; id < 16; id++)\<close> with
  its two breaks, from \<open>i\<close> on.\<close>

function find_id :: "nat \<Rightarrow> int \<Rightarrow> (nat \<Rightarrow> Player) \<Rightarrow> nat" where
  "find_id i n pl =
     (if 16 \<le> i then i
      else if int i \<ge> n then i
      else if Status (pl i) = Player_None then i
      else find_id (Suc i) n pl)"
  by pat_completeness auto
termination
  by (relation "measure (\<lambda>(i, n, pl). 16 - i)") auto

declare find_id.simps [simp del]

definition HostUpdatePlayerList :: "LAN \<Rightarrow> LAN" where
  "HostUpdatePlayerList s =
     s\<lparr>HostOut := HostOut s @ [PlayerListBroadcast (NumPlayers s) (map (Players s) [0..<16])]\<rparr>"

text \<open>
  \<^verbatim>\<open>StartHost\<close>, as far as the fields of the record go: \<open>inited\<close> is \<^verbatim>\<open>Inited\<close> and
  \<open>created\<close> says that \<^verbatim>\<open>enet_host_create\<close> gave a host.
\<close>

definition StartHost :: "bool \<Rightarrow> bool \<Rightarrow> u8 list \<Rightarrow> int \<Rightarrow> LAN \<Rightarrow> bool \<times> LAN" where
  "StartHost inited created playername numplayers s =
     (if \<not> inited then (False, s)
      else if numplayers > 16 then (False, s)
      else if \<not> created then (False, s)
      else (True, s\<lparr>Host := True,
                    Players := (Players s)(0 := \<lparr>ID = 0,
                       Name = take 31 playername @ replicate (32 - length (take 31 playername)) 0,
                       Status = Player_Host, Address = kLocalhost, IsLocalPlayer = False,
                       Ping = 0\<rparr>),
                    NumPlayers := 1, MaxPlayers := numplayers, MyPlayerID := 0,
                    LastHostID := - 1, LastHostPeer := None\<rparr>))"

text \<open>
  \<^verbatim>\<open>ProcessHostEvent\<close>. The layout of \<^verbatim>\<open>struct Player\<close> is not in these sources:
  \<open>sizeofPlayer\<close> is its size and \<open>decodePlayer\<close> reads one from the bytes of a
  \<^verbatim>\<open>Cmd_PlayerInfo\<close>.
\<close>

definition ProcessHostEvent ::
  "nat \<Rightarrow> (u8 list \<Rightarrow> Player) \<Rightarrow> ENetEvent \<Rightarrow> LAN \<Rightarrow> fault + LAN" where
  "ProcessHostEvent sizeofPlayer decodePlayer event s =
     (case event of
        Connect peer addr \<Rightarrow>
          if NumPlayers s \<ge> MaxPlayers s \<or> NumPlayers s \<ge> 16
          then Inr (s\<lparr>HostOut := HostOut s @ [PeerDisconnect peer]\<rparr>)
          else
            (let newid = find_id 0 (NumPlayers s) (Players s) in
             if newid < 16
             then Inr (s\<lparr>HostOut := HostOut s @ [CmdTo peer (ClientInit newid (MaxPlayers s))],
                        Players := (Players s)(newid := (Players s newid)\<lparr>ID := int newid,
                           Status := Player_Connecting, Address := addr\<rparr>),
                        PeerData := (PeerData s)(peer \<mapsto> newid),
                        NumPlayers := NumPlayers s + 1,
                        RemotePeers := (RemotePeers s)(newid \<mapsto> peer)\<rparr>)
             else Inr (s\<lparr>HostOut := HostOut s @ [PeerDisconnect peer]\<rparr>))
      | Disconnect peer \<Rightarrow>
          (case PeerData s peer of
             None \<Rightarrow> Inr s
           | Some slot \<Rightarrow>
               (let pid = ID (Players s slot) in
                if pid < 0 then Inl UndefinedShift
                else if 32 \<le> pid then Inl UndefinedShift
                else if 16 \<le> pid then Inl OutOfBounds
                else Inr (HostUpdatePlayerList
                       (s\<lparr>ConnectedBitmask := ConnectedBitmask s
                             AND NOT (ucast (push_bit (nat pid) (1 :: u32))),
                          RemotePeers := (RemotePeers s)(nat pid := None),
                          Players := (Players s)(slot := (Players s slot)\<lparr>ID := 0,
                             Status := Player_None\<rparr>),
                          NumPlayers := NumPlayers s - 1\<rparr>))))
      | Receive peer addr data \<Rightarrow>
          if length data < 1 then Inr s
          else if data ! 0 = 2 then
            (if length data \<noteq> 9 + sizeofPlayer then Inr s
             else if rd32 data 1 \<noteq> kLANMagic \<or> rd32 data 5 \<noteq> kProtocolVersion
               then Inr (s\<lparr>HostOut := HostOut s @ [PeerDisconnect peer]\<rparr>)
             else
               (case PeerData s peer of
                  None \<Rightarrow> Inl NullDeref
                | Some slot \<Rightarrow>
                    (let player = decodePlayer (drop 9 data) in
                     if ID player \<noteq> ID (Players s slot)
                     then Inr (s\<lparr>HostOut := HostOut s @ [PeerDisconnect peer]\<rparr>)
                     else Inr (HostUpdatePlayerList
                            (s\<lparr>Players := (Players s)(slot := player\<lparr>
                                  Name := (Name player)[31 := 0],
                                  Status := Player_Client, Address := addr\<rparr>)\<rparr>)))))
          else if data ! 0 = 4 then
            (if length data \<noteq> 1 then Inr s
             else
               (case PeerData s peer of
                  None \<Rightarrow> Inr s
                | Some slot \<Rightarrow>
                    if ID (Players s slot) < 0 then Inl UndefinedShift
                    else if 32 \<le> ID (Players s slot) then Inl UndefinedShift
                    else Inr (s\<lparr>ConnectedBitmask := ConnectedBitmask s
                            OR ucast (push_bit (nat (ID (Players s slot))) (1 :: u32))\<rparr>)))
          else if data ! 0 = 5 then
            (if length data \<noteq> 1 then Inr s
             else
               (case PeerData s peer of
                  None \<Rightarrow> Inr s
                | Some slot \<Rightarrow>
                    if ID (Players s slot) < 0 then Inl UndefinedShift
                    else if 32 \<le> ID (Players s slot) then Inl UndefinedShift
                    else Inr (s\<lparr>ConnectedBitmask := ConnectedBitmask s
                            AND NOT (ucast (push_bit (nat (ID (Players s slot))) (1 :: u32)))\<rparr>)))
          else Inr s
      | NoEvent \<Rightarrow> Inr s)"

section \<open>BlobTransfer: messages, the sending side, message sequences\<close>

text \<open>The packed \<^verbatim>\<open>MsgBlobStart\<close>, \<^verbatim>\<open>MsgBlobChunk\<close> (header and payload) and
  \<^verbatim>\<open>MsgBlobEnd\<close>.\<close>

definition MsgBlobStart :: "u8 \<Rightarrow> u32 \<Rightarrow> u8 list" where
  "MsgBlobStart ty totalLen = Msg_BlobStart # ty # le32 totalLen"

definition MsgBlobChunk :: "u32 \<Rightarrow> u8 list \<Rightarrow> u8 list" where
  "MsgBlobChunk offset bytes = Msg_BlobChunk # le32 offset @ bytes"

definition MsgBlobEnd :: "u8 \<Rightarrow> u32 \<Rightarrow> u8 list" where
  "MsgBlobEnd ty checksum = Msg_BlobEnd # ty # le32 checksum"

text \<open>The chunk loop of \<^verbatim>\<open>BlobTransfer::Send\<close>, from \<open>offset\<close> on, with \<open>remaining\<close> the
  bytes not yet sent.\<close>

function send_chunks :: "nat \<Rightarrow> u8 list \<Rightarrow> u8 list list" where
  "send_chunks offset remaining =
     (if remaining = [] then []
      else MsgBlobChunk (word_of_nat offset) (take kBlobChunkSize remaining)
             # send_chunks (offset + min kBlobChunkSize (length remaining))
                 (drop kBlobChunkSize remaining))"
  by pat_completeness auto
termination
  by (relation "measure (\<lambda>(offset, remaining). length remaining)")
    (auto simp add: kBlobChunkSize_def)

declare send_chunks.simps [simp del]

text \<open>\<^verbatim>\<open>BlobTransfer::Send\<close>: the messages given to the transport for one peer, in order,
  all on the reliable control channel. \<open>len\<close> is a \<^verbatim>\<open>u32\<close>.\<close>

definition BlobSend :: "u8 \<Rightarrow> u8 list \<Rightarrow> u8 list list" where
  "BlobSend ty data =
     MsgBlobStart ty (word_of_nat (length data)) # send_chunks 0 data
       @ [MsgBlobEnd ty (checksum_loop data 0)]"

text \<open>A receiver fed a sequence of messages, one call of \<^verbatim>\<open>OnMessage\<close> each.\<close>

fun feed :: "u8 list list \<Rightarrow> BlobTransfer \<Rightarrow> fault + BlobTransfer" where
  "feed [] b = Inr b"
| "feed (m # ms) b = (case OnMessage m b of Inl e \<Rightarrow> Inl e | Inr (r, b') \<Rightarrow> feed ms b')"

text \<open>A session fed a sequence of control messages from peer 0.\<close>

fun handle_all :: "u8 list list \<Rightarrow> NetplaySession \<Rightarrow> fault + NetplaySession" where
  "handle_all [] s = Inr s"
| "handle_all (m # ms) s =
     (case HandleControlMessage 0 m s of Inl e \<Rightarrow> Inl e | Inr s' \<Rightarrow> handle_all ms s')"

text \<open>
  The spec's words for a complete transfer, used to state the claim it makes: byte \<open>i\<close> is
  covered by a chunk message when it lies in \<open>[offset, offset + payload length)\<close>, and a
  transfer of \<open>totalLen\<close> bytes is covered when every byte is covered by exactly one chunk.
\<close>

definition chunk_covers :: "u8 list \<Rightarrow> nat \<Rightarrow> bool" where
  "chunk_covers m i =
     (5 \<le> length m \<and> m ! 0 = Msg_BlobChunk
      \<and> unat (rd32 m 1) \<le> i \<and> i < unat (rd32 m 1) + (length m - 5))"

definition cover_count :: "u8 list list \<Rightarrow> nat \<Rightarrow> nat" where
  "cover_count msgs i = length (filter (\<lambda>m. chunk_covers m i) msgs)"

definition spec_covered_once :: "nat \<Rightarrow> u8 list list \<Rightarrow> bool" where
  "spec_covered_once totalLen msgs = list_all (\<lambda>i. cover_count msgs i = 1) [0..<totalLen]"

text \<open>The receiver's vector has the length \<^verbatim>\<open>BlobStart\<close> gave it.\<close>

definition blob_wf :: "BlobTransfer \<Rightarrow> bool" where
  "blob_wf b = (length (Buffer b) = unat (TotalLen b))"

section \<open>Predicates and concrete inputs used in the theorems\<close>



text \<open>
  Concrete inputs: an instance fresh from reset, an emulator frame that changes nothing
  and reports 263 scanlines, and a digest that stands for the library's in evaluations.
\<close>

definition nds0 :: NDS where
  "nds0 = \<lparr>nds_KeyMask = 0xFFF, nds_Touch = None, nds_LidClosed = False,
     MainRAM = [1, 2], ARM9_R = [3], ARM7_R = [4]\<rparr>"

definition idle_emu :: "nat \<Rightarrow> NDS \<Rightarrow> NDS \<times> u32" where
  "idle_emu i n = (n, 263)"

definition len_hash :: "u8 list \<Rightarrow> u64" where
  "len_hash bytes = word_of_nat (length bytes)"

text \<open>A two-player session with input delay 0 and its instances created: \<^verbatim>\<open>Init\<close> has
  filled no slot of the ring.\<close>

definition unready_session :: NetplaySession where
  "unready_session = CreateInstances (\<lambda>i. nds0) (snd (Init 0 2 0 session_new))"

text \<open>A two-player session with input delay 4 that has reached frame 60, with no
  transport connected and no desync callback set.\<close>

definition frame60_session :: NetplaySession where
  "frame60_session =
     (CreateInstances (\<lambda>i. nds0) (snd (Init 0 2 4 session_new)))\<lparr>CurrentFrame := 60\<rparr>"

text \<open>A two-player session with input delay 4 and its instances created, at frame 0.\<close>

definition ready_session :: NetplaySession where
  "ready_session = CreateInstances (\<lambda>i. nds0) (snd (Init 0 2 4 session_new))"


text \<open>Three transfers: one that leaves byte 1 uncovered, one that sends byte 0 twice, one
  whose chunks arrive last first; and the transfer of a one-byte savestate of instance 0
  (blob type 1).\<close>

definition uncovered_transfer :: "u8 list list" where
  "uncovered_transfer = [MsgBlobStart 1 2, MsgBlobChunk 0 [3], MsgBlobEnd 1 3]"

definition duplicate_transfer :: "u8 list list" where
  "duplicate_transfer =
     [MsgBlobStart 1 2, MsgBlobChunk 0 [1], MsgBlobChunk 0 [1], MsgBlobChunk 1 [1],
      MsgBlobEnd 1 2]"

definition reordered_transfer :: "u8 list list" where
  "reordered_transfer =
     [MsgBlobStart 1 2, MsgBlobChunk 1 [5], MsgBlobChunk 0 [7], MsgBlobEnd 1 12]"

definition savestate0_transfer :: "u8 list list" where
  "savestate0_transfer = BlobSend 1 [7]"

text \<open>A receiver in the middle of a two-byte transfer, byte 0 received.\<close>

definition receiving_blob :: BlobTransfer where
  "receiving_blob = \<lparr>BType = 1, TotalLen = 2, ReceivedLen = 1, Buffer = [3, 0],
     Complete = False, Receiving = True\<rparr>"

text \<open>The staleness test of \<^verbatim>\<open>ProcessLAN\<close>: the receive wall-clock of the packet against
  the clock read on entry.\<close>

definition stale :: "u32 \<Rightarrow> ENetPacket \<Rightarrow> bool" where
  "stale now p = (Magic (header p) > now \<or> Magic (header p) < now - 500)"

text \<open>What \<^verbatim>\<open>RecvPacketGeneric\<close> returns when it delivers packet \<open>p\<close> from state \<open>s\<close>: at most
  2048 bytes of its payload, its timestamp, and the sender recorded as last host when the
  packet is a command with a payload.\<close>

definition delivered ::
  "ENetPacket \<Rightarrow> LAN \<Rightarrow> u32 \<times> u8 list \<times> u64 option \<times> LAN \<Rightarrow> bool" where
  "delivered p s res =
     (case res of (len, bytes, ts, s') \<Rightarrow>
        len = (if Length (header p) > 2048 then 2048 else Length (header p))
        \<and> bytes = take (unat len) (payload p)
        \<and> ts = Some (Timestamp (header p))
        \<and> LastHostID s' = (if Type (header p) = 1 \<and> Length (header p) \<noteq> 0
                            then sint (SenderID (header p)) else LastHostID s))"

text \<open>A reply that \<^verbatim>\<open>RecvReplies\<close> called with \<open>timestamp\<close> accepts and copies, for
  association id \<open>k\<close>.\<close>

definition counted :: "u64 \<Rightarrow> ENetPacket \<Rightarrow> nat \<Rightarrow> bool" where
  "counted timestamp p k =
     ((Type (header p) AND 0xFFFF) = 2 \<and> \<not> Timestamp (header p) < timestamp - 0x100000
      \<and> Length (header p) \<noteq> 0 \<and> unat (drop_bit 16 (Type (header p))) = k)"

text \<open>A packet that \<^verbatim>\<open>RecvReplies\<close> called with \<open>timestamp\<close> accepts as a reply (\<^verbatim>\<open>good\<close>):
  reply type in the low 16 bits and an emulated timestamp not below \<open>timestamp - 2^20\<close>. Its
  payload may be empty.\<close>

definition accepted :: "u64 \<Rightarrow> ENetPacket \<Rightarrow> bool" where
  "accepted timestamp p =
     ((Type (header p) AND 0xFFFF) = 2 \<and> \<not> Timestamp (header p) < timestamp - 0x100000)"

text \<open>
  The two conditions of the specification under which \<^verbatim>\<open>RecvReplies\<close> stops before the
  timeout, on the packets \<open>ps\<close> dequeued so far. (a) Every player connected in \<open>connmask\<close> has
  replied: its bit is the local player's (\<open>me\<close>) or it is the sender of an accepted reply.
  (b) The mask covers \<open>aidmask\<close>: every association id of \<open>aidmask\<close> is that of a counted
  reply.
\<close>

definition every_connected_replied :: "u64 \<Rightarrow> u16 \<Rightarrow> u16 \<Rightarrow> ENetPacket list \<Rightarrow> bool" where
  "every_connected_replied timestamp me connmask ps =
     list_all (\<lambda>k. bit connmask k \<longrightarrow>
                 bit me k
                 \<or> list_ex (\<lambda>p. accepted timestamp p \<and> unat (SenderID (header p)) = k) ps)
       [0..<16]"

definition aidmask_covered :: "u64 \<Rightarrow> u16 \<Rightarrow> ENetPacket list \<Rightarrow> bool" where
  "aidmask_covered timestamp aidmask ps =
     list_all (\<lambda>k. bit aidmask k \<longrightarrow> list_ex (\<lambda>p. counted timestamp p k) ps) [0..<16]"

text \<open>
  The value of \<^verbatim>\<open>ConnectedBitmask\<close> loaded when each packet is dequeued, in the order of
  the packets: those found in the queue are dequeued in the first pass, those that arrive
  during a pass in that pass.
\<close>

definition observed_connmask :: "ENetPacket list \<Rightarrow> tick list \<Rightarrow> u16 list" where
  "observed_connmask queue ticks =
     (case ticks of [] \<Rightarrow> [] | r # rs \<Rightarrow> replicate (length queue) (t_connmask r))
     @ concat (map (\<lambda>r. replicate (length (t_arrived r)) (t_connmask r)) ticks)"

text \<open>The player table counts its occupied slots in \<^verbatim>\<open>NumPlayers\<close>.\<close>

definition table_consistent :: "LAN \<Rightarrow> bool" where
  "table_consistent s =
     (NumPlayers s = int (length (filter (\<lambda>i. Status (Players s i) \<noteq> Player_None) [0..<16])))"

text \<open>
  Concrete packets, all queued by the network thread at wall-clock 1099 with emulated
  timestamp \<open>0x200000\<close>: a reply of player 1 with association id 1 and one byte, the same reply
  with an empty payload, and a bulk frame (type 0) of one byte. A host with players 0 and
  1 connected.
\<close>

definition reply_packet :: ENetPacket where
  "reply_packet = \<lparr>header = \<lparr>Magic = 1099, SenderID = 1, Type = 0x10002, Length = 1,
     Timestamp = 0x200000\<rparr>, payload = [0xAB], userData = Some 1\<rparr>"

definition empty_reply_packet :: ENetPacket where
  "empty_reply_packet = \<lparr>header = \<lparr>Magic = 1099, SenderID = 1, Type = 0x10002, Length = 0,
     Timestamp = 0x200000\<rparr>, payload = [], userData = Some 1\<rparr>"

definition frame_packet :: ENetPacket where
  "frame_packet = \<lparr>header = \<lparr>Magic = 1099, SenderID = 1, Type = 0, Length = 1,
     Timestamp = 0x200000\<rparr>, payload = [0xCD], userData = Some 1\<rparr>"

definition lan_host :: "ENetPacket list \<Rightarrow> LAN" where
  "lan_host q = lan_new\<lparr>Host := True, RXQueue := q, ConnectedBitmask := 3\<rparr>"

text \<open>An observation with nothing newly queued, players 0 and 1 connected, at clock \<open>c\<close>;
  and a host on which only the local player is connected.\<close>

definition tick_at :: "u32 \<Rightarrow> tick" where
  "tick_at c = \<lparr>t_arrived = [], t_connmask = 3, t_clock = c\<rparr>"

definition lan_alone :: LAN where
  "lan_alone = lan_new\<lparr>Host := True, ConnectedBitmask := 1\<rparr>"




section \<open>Init\<close>

lemma prefill_fold_frame:
  "CurrentFrame (fold (prefill p) fs s) = CurrentFrame s
   \<and> HostMode (fold (prefill p) fs s) = HostMode s
   \<and> Active (fold (prefill p) fs s) = Active s
   \<and> Current (fold (prefill p) fs s) = Current s"
  by (induction fs arbitrary: s) (simp_all add: prefill_def)

lemma prefill_folds_frame:
  "CurrentFrame (fold (\<lambda>p. fold (prefill p) fs) ps s) = CurrentFrame s
   \<and> HostMode (fold (\<lambda>p. fold (prefill p) fs) ps s) = HostMode s"
  by (induction ps arbitrary: s) (simp_all add: prefill_fold_frame)

text \<open>
  Claim C10. \<^verbatim>\<open>Init\<close> returns false and changes nothing when \<open>numPlayers\<close> is outside
  \<open>[2, 4]\<close> or \<open>localPlayerID\<close> is outside \<open>[0, numPlayers)\<close>: a session fresh from the
  constructor stays inactive, the global pointer stays unset and no slot of the input ring
  is marked ready. For arguments inside the ranges it returns true, the current frame is 0,
  the session is active, and it is in host mode exactly when \<open>localPlayerID\<close> is 0.
\<close>

theorem Init_validates_arguments:
  "(\<not> (2 \<le> n \<and> n \<le> 4 \<and> 0 \<le> l \<and> l < n) \<longrightarrow>
      Init l n d s = (False, s)
      \<and> Init l n d session_new = (False, session_new)
      \<and> \<not> Active (snd (Init l n d session_new))
      \<and> \<not> Current (snd (Init l n d session_new))
      \<and> (\<forall>p k. \<not> InputReady (snd (Init l n d session_new)) p k))
   \<and> (2 \<le> n \<and> n \<le> 4 \<and> 0 \<le> l \<and> l < n \<longrightarrow>
      fst (Init l n d s)
      \<and> CurrentFrame (snd (Init l n d s)) = 0
      \<and> Active (snd (Init l n d s))
      \<and> HostMode (snd (Init l n d s)) = (l = 0))"
proof (intro conjI impI)
  assume bad: "\<not> (2 \<le> n \<and> n \<le> 4 \<and> 0 \<le> l \<and> l < n)"
  then have fail: "Init l n d t = (False, t)" for t
    by (auto simp add: Init_def kNetplayMaxPlayers_def)
  show "Init l n d s = (False, s)" by (rule fail)
  show "Init l n d session_new = (False, session_new)" by (rule fail)
  show "\<not> Active (snd (Init l n d session_new))" by (simp add: fail session_new_def)
  show "\<not> Current (snd (Init l n d session_new))" by (simp add: fail session_new_def)
  show "\<forall>p k. \<not> InputReady (snd (Init l n d session_new)) p k"
    by (simp add: fail session_new_def)
next
  assume ok: "2 \<le> n \<and> n \<le> 4 \<and> 0 \<le> l \<and> l < n"
  then show "fst (Init l n d s)" by (simp add: Init_def kNetplayMaxPlayers_def Let_def)
  from ok show "CurrentFrame (snd (Init l n d s)) = 0"
    by (simp add: Init_def kNetplayMaxPlayers_def Let_def prefill_folds_frame)
  from ok show "Active (snd (Init l n d s))"
    by (simp add: Init_def kNetplayMaxPlayers_def Let_def)
  from ok show "HostMode (snd (Init l n d s)) = (l = 0)"
    by (simp add: Init_def kNetplayMaxPlayers_def Let_def prefill_folds_frame)
qed

theorem Init_validates_arguments_witness:
  "Init 0 5 4 session_new = (False, session_new)
   \<and> Init 2 2 4 session_new = (False, session_new)
   \<and> fst (Init 1 3 4 session_new)
   \<and> CurrentFrame (snd (Init 1 3 4 session_new)) = 0
   \<and> Active (snd (Init 1 3 4 session_new))
   \<and> \<not> HostMode (snd (Init 1 3 4 session_new))
   \<and> HostMode (snd (Init 0 2 4 session_new))"
  using Init_validates_arguments [of 5 0 4 session_new]
    Init_validates_arguments [of 2 2 4 session_new]
    Init_validates_arguments [of 3 1 4 session_new]
    Init_validates_arguments [of 2 0 4 session_new]
  by simp


section \<open>The input ring\<close>










section \<open>The frame loop\<close>

lemma apply_loop_ok:
  "distinct js \<Longrightarrow> list_all (\<lambda>i. inst i \<noteq> None) js \<Longrightarrow>
     apply_loop js slot inst
       = Inr (\<lambda>i. if i \<in> set js then map_option (apply_input (slot i)) (inst i) else inst i)"
proof (induction js arbitrary: inst)
  case Nil
  then show ?case by simp
next
  case (Cons j js)
  from Cons.prems obtain n where n: "inst j = Some n" by auto
  let ?inst = "inst(j \<mapsto> apply_input (slot j) n)"
  have d: "distinct js" and nj: "j \<notin> set js" using Cons.prems by auto
  have "list_all (\<lambda>i. ?inst i \<noteq> None) js"
    using Cons.prems by (auto simp add: list_all_iff)
  from Cons.IH [OF d this] have
    "apply_loop js slot ?inst
       = Inr (\<lambda>i. if i \<in> set js then map_option (apply_input (slot i)) (?inst i) else ?inst i)" .
  moreover have "(\<lambda>i. if i \<in> set js then map_option (apply_input (slot i)) (?inst i) else ?inst i)
      = (\<lambda>i. if i \<in> set (j # js) then map_option (apply_input (slot i)) (inst i) else inst i)"
    using nj n by (auto simp add: fun_eq_iff)
  ultimately show ?case using n by simp
qed

lemma apply_loop_fault:
  "\<not> list_all (\<lambda>i. inst i \<noteq> None) js \<Longrightarrow> distinct js \<Longrightarrow> apply_loop js slot inst = Inl NullDeref"
proof (induction js arbitrary: inst)
  case Nil
  then show ?case by simp
next
  case (Cons j js)
  show ?case
  proof (cases "inst j")
    case None
    then show ?thesis by simp
  next
    case (Some n)
    let ?inst = "inst(j \<mapsto> apply_input (slot j) n)"
    have d: "distinct js" using Cons.prems by simp
    from Cons.prems Some have "\<not> list_all (\<lambda>i. ?inst i \<noteq> None) js"
      by (auto simp add: list_all_iff)
    from Cons.IH [OF this d] have "apply_loop js slot ?inst = Inl NullDeref" .
    with Some show ?thesis by simp
  qed
qed

lemma clear_ready_fold:
  "fold (\<lambda>i r. r(i := (r i)(k := False))) js r p j = (if p \<in> set js \<and> j = k then False else r p j)"
  by (induction js arbitrary: r) auto

lemma run_instances_fold:
  "distinct js \<Longrightarrow>
   (let s' = fold (\<lambda>i s'. case Instances s' i of
                    None \<Rightarrow> s'
                  | Some n \<Rightarrow> s'\<lparr>Instances := (Instances s')(i \<mapsto> fst (emu i n)),
                                 InstanceScanlines := (InstanceScanlines s')(i := snd (emu i n))\<rparr>) js s
    in Instances s' = (\<lambda>i. if i \<in> set js then map_option (\<lambda>n. fst (emu i n)) (Instances s i)
                            else Instances s i)
       \<and> NumInstances s' = NumInstances s \<and> CurrentFrame s' = CurrentFrame s
       \<and> LocalPlayerID s' = LocalPlayerID s \<and> InputReady s' = InputReady s
       \<and> InputBuf s' = InputBuf s \<and> TransportConnected s' = TransportConnected s
       \<and> Outbox s' = Outbox s \<and> Active s' = Active s
       \<and> LastHashFrame s' = LastHashFrame s \<and> LastStateHash s' = LastStateHash s)"
proof (induction js arbitrary: s)
  case Nil
  then show ?case by simp
next
  case (Cons j js)
  show ?case
  proof (cases "Instances s j")
    case None
    with Cons.IH [of s] Cons.prems show ?thesis by (auto simp add: Let_def fun_eq_iff)
  next
    case (Some n)
    with Cons.IH [of "s\<lparr>Instances := (Instances s)(j \<mapsto> fst (emu j n)),
                        InstanceScanlines := (InstanceScanlines s)(j := snd (emu j n))\<rparr>"]
      Cons.prems show ?thesis by (auto simp add: Let_def fun_eq_iff)
  qed
qed

lemma run_instances_eq:
  "Instances (run_instances emu s) = (\<lambda>i. if i < nat (NumInstances s)
       then map_option (\<lambda>n. fst (emu i n)) (Instances s i) else Instances s i)
   \<and> NumInstances (run_instances emu s) = NumInstances s
   \<and> CurrentFrame (run_instances emu s) = CurrentFrame s
   \<and> LocalPlayerID (run_instances emu s) = LocalPlayerID s
   \<and> InputReady (run_instances emu s) = InputReady s
   \<and> InputBuf (run_instances emu s) = InputBuf s
   \<and> TransportConnected (run_instances emu s) = TransportConnected s
   \<and> Outbox (run_instances emu s) = Outbox s
   \<and> Active (run_instances emu s) = Active s
   \<and> LastHashFrame (run_instances emu s) = LastHashFrame s
   \<and> LastStateHash (run_instances emu s) = LastStateHash s"
proof -
  have d: "distinct [0..<nat (NumInstances s)]" by simp
  have m: "(i \<in> set [0..<nat (NumInstances s)]) = (i < nat (NumInstances s))" for i by simp
  show ?thesis
    using run_instances_fold [OF d, of emu s]
    unfolding run_instances_def Let_def m by blast
qed

lemma ApplyInputs_Inr:
  assumes "ApplyInputs f s = Inr s1"
  shows "list_all (\<lambda>i. Instances s i \<noteq> None) [0..<nat (NumInstances s)]"
    and "s1 = s\<lparr>Instances := (\<lambda>i. if i < nat (NumInstances s)
                    then map_option (apply_input (InputBuf s i (unat f mod INPUT_BUF_SIZE)))
                           (Instances s i)
                    else Instances s i),
                 InputReady := (\<lambda>p j. \<not> (p < nat (NumInstances s) \<and> j = unat f mod INPUT_BUF_SIZE)
                    \<and> InputReady s p j)\<rparr>"
proof -
  let ?n = "nat (NumInstances s)"
  let ?k = "unat f mod INPUT_BUF_SIZE"
  have le: "\<not> nat kNetplayMaxPlayers < ?n"
    using assms by (auto simp add: ApplyInputs_def Let_def split: if_splits)
  show all: "list_all (\<lambda>i. Instances s i \<noteq> None) [0..<?n]"
  proof (rule ccontr)
    assume "\<not> list_all (\<lambda>i. Instances s i \<noteq> None) [0..<?n]"
    then have "apply_loop [0..<?n] (\<lambda>i. InputBuf s i ?k) (Instances s) = Inl NullDeref"
      by (rule apply_loop_fault) simp
    with assms le show False by (auto simp add: ApplyInputs_def Let_def split: if_splits)
  qed
  have m: "(i \<in> set [0..<?n]) = (i < ?n)" for i by simp
  have loop: "apply_loop [0..<?n] (\<lambda>i. InputBuf s i ?k) (Instances s)
      = Inr (\<lambda>i. if i < ?n then map_option (apply_input (InputBuf s i ?k)) (Instances s i)
                  else Instances s i)"
    using apply_loop_ok [of "[0..<?n]" "Instances s" "\<lambda>i. InputBuf s i ?k"] all
    unfolding m by simp
  have clear: "fold (\<lambda>i r. r(i := (r i)(?k := False))) [0..<?n] (InputReady s)
      = (\<lambda>p j. \<not> (p < ?n \<and> j = ?k) \<and> InputReady s p j)"
    by (auto simp add: fun_eq_iff clear_ready_fold)
  have "ApplyInputs f s = Inr (s\<lparr>Instances := (\<lambda>i. if i < ?n
                    then map_option (apply_input (InputBuf s i ?k)) (Instances s i)
                    else Instances s i),
                 InputReady := (\<lambda>p j. \<not> (p < ?n \<and> j = ?k) \<and> InputReady s p j)\<rparr>)"
    using le by (simp only: ApplyInputs_def Let_def loop clear if_False sum.case)
  with assms show "s1 = s\<lparr>Instances := (\<lambda>i. if i < ?n
                    then map_option (apply_input (InputBuf s i ?k)) (Instances s i)
                    else Instances s i),
                 InputReady := (\<lambda>p j. \<not> (p < ?n \<and> j = ?k) \<and> InputReady s p j)\<rparr>"
    by (simp only: sum.inject)
qed

lemma desync_check_frame:
  "Instances (desync_check xxh s) = Instances s"
  "NumInstances (desync_check xxh s) = NumInstances s"
  "CurrentFrame (desync_check xxh s) = CurrentFrame s"
  "InputReady (desync_check xxh s) = InputReady s"
  by (simp_all add: desync_check_def Let_def)

lemma RunFrame_Inr:
  assumes act: "Active s" and ni: "NumInstances s \<noteq> 0"
    and run: "RunFrame emu xxh s = Inr (r, s')"
  shows "CurrentFrame s' = CurrentFrame s + 1"
    and "NumInstances s' = NumInstances s"
    and "Instances s' = (\<lambda>i. if i < nat (NumInstances s)
            then map_option (\<lambda>n. fst (emu i (apply_input
                   (InputBuf s i (unat (CurrentFrame s) mod INPUT_BUF_SIZE)) n))) (Instances s i)
            else Instances s i)"
    and "InputReady s' = (\<lambda>p j. \<not> (p < nat (NumInstances s)
            \<and> j = unat (CurrentFrame s) mod INPUT_BUF_SIZE) \<and> InputReady s p j)"
    and "list_all (\<lambda>i. Instances s i \<noteq> None) [0..<nat (NumInstances s)]"
    and "0 < CurrentFrame s \<and> CurrentFrame s mod DESYNC_CHECK_INTERVAL = 0 \<Longrightarrow>
           LastHashFrame s' = CurrentFrame s \<and> LastStateHash s' = ComputeStateHash xxh s'
           \<and> Outbox s' = (if TransportConnected s
                then Outbox s @ [Broadcast Chan_Control
                       (MsgDesyncAlert (CurrentFrame s) (ComputeStateHash xxh s'))]
                else Outbox s)"
    and "\<not> (0 < CurrentFrame s \<and> CurrentFrame s mod DESYNC_CHECK_INTERVAL = 0) \<Longrightarrow>
           LastHashFrame s' = LastHashFrame s \<and> LastStateHash s' = LastStateHash s
           \<and> Outbox s' = Outbox s"
proof -
  from act ni run obtain s1 where s1: "ApplyInputs (CurrentFrame s) s = Inr s1"
    by (auto simp add: RunFrame_def split: sum.splits)
  note a = ApplyInputs_Inr [OF s1]
  let ?t = "s1\<lparr>ThreadsRunning := True\<rparr>"
  let ?s2 = "run_instances emu ?t"
  note r = run_instances_eq [of emu ?t]
  have n1: "NumInstances s1 = NumInstances s" and c1: "CurrentFrame s1 = CurrentFrame s"
    and o1: "Outbox s1 = Outbox s" and t1: "TransportConnected s1 = TransportConnected s"
    and h1: "LastHashFrame s1 = LastHashFrame s" "LastStateHash s1 = LastStateHash s"
    by (subst a(2), simp)+
  have is1: "Instances s1 = (\<lambda>i. if i < nat (NumInstances s)
        then map_option (apply_input (InputBuf s i (unat (CurrentFrame s) mod INPUT_BUF_SIZE)))
               (Instances s i)
        else Instances s i)"
    by (subst a(2)) simp
  have c2: "CurrentFrame ?s2 = CurrentFrame s" using r by (simp add: c1)
  let ?s3 = "if 0 < CurrentFrame ?s2 \<and> CurrentFrame ?s2 mod DESYNC_CHECK_INTERVAL = 0
             then desync_check xxh ?s2 else ?s2"
  from act ni run s1 have s': "s' = ?s3\<lparr>CurrentFrame := CurrentFrame ?s3 + 1\<rparr>"
    by (auto simp add: RunFrame_def Let_def split: if_splits)
  note dc = desync_check_frame
  have i3: "Instances ?s3 = Instances ?s2" "NumInstances ?s3 = NumInstances ?s2"
    "CurrentFrame ?s3 = CurrentFrame ?s2" "InputReady ?s3 = InputReady ?s2"
    by (simp_all add: dc)
  show "CurrentFrame s' = CurrentFrame s + 1"
    by (subst s') (simp add: dc c2)
  show "NumInstances s' = NumInstances s"
    by (subst s') (simp add: dc r n1)
  have "Instances s' = Instances ?s2" by (subst s') (simp add: dc)
  also have "\<dots> = (\<lambda>i. if i < nat (NumInstances s)
            then map_option (\<lambda>n. fst (emu i (apply_input
                   (InputBuf s i (unat (CurrentFrame s) mod INPUT_BUF_SIZE)) n))) (Instances s i)
            else Instances s i)"
    using conjunct1 [OF r] by (auto simp add: n1 is1 fun_eq_iff option.map_comp o_def)
  finally show "Instances s' = (\<lambda>i. if i < nat (NumInstances s)
            then map_option (\<lambda>n. fst (emu i (apply_input
                   (InputBuf s i (unat (CurrentFrame s) mod INPUT_BUF_SIZE)) n))) (Instances s i)
            else Instances s i)" .
  have "InputReady s' = InputReady s1" by (subst s') (simp add: dc r)
  also have "\<dots> = (\<lambda>p j. \<not> (p < nat (NumInstances s)
            \<and> j = unat (CurrentFrame s) mod INPUT_BUF_SIZE) \<and> InputReady s p j)"
    by (subst a(2)) simp
  finally show "InputReady s' = (\<lambda>p j. \<not> (p < nat (NumInstances s)
            \<and> j = unat (CurrentFrame s) mod INPUT_BUF_SIZE) \<and> InputReady s p j)" .
  show "list_all (\<lambda>i. Instances s i \<noteq> None) [0..<nat (NumInstances s)]" by (rule a(1))
  have hb: "hashed_bytes s' = hashed_bytes ?s2"
    by (subst s') (simp add: hashed_bytes_def dc)
  {
    assume d: "0 < CurrentFrame s \<and> CurrentFrame s mod DESYNC_CHECK_INTERVAL = 0"
    then have "?s3 = desync_check xxh ?s2" by (simp add: c2)
    then have s'': "s' = (desync_check xxh ?s2)\<lparr>CurrentFrame := CurrentFrame ?s2 + 1\<rparr>"
      using s' i3 by simp
    show "LastHashFrame s' = CurrentFrame s \<and> LastStateHash s' = ComputeStateHash xxh s'
           \<and> Outbox s' = (if TransportConnected s
                then Outbox s @ [Broadcast Chan_Control
                       (MsgDesyncAlert (CurrentFrame s) (ComputeStateHash xxh s'))]
                else Outbox s)"
      unfolding ComputeStateHash_def hb
      by (subst s'', subst s'', subst s'')
        (simp add: desync_check_def Let_def ComputeStateHash_def r c1 o1 t1)
  }
  {
    assume d: "\<not> (0 < CurrentFrame s \<and> CurrentFrame s mod DESYNC_CHECK_INTERVAL = 0)"
    then have "?s3 = ?s2" by (auto simp add: c2)
    then have s'': "s' = ?s2\<lparr>CurrentFrame := CurrentFrame ?s2 + 1\<rparr>"
      using s' by simp
    show "LastHashFrame s' = LastHashFrame s \<and> LastStateHash s' = LastStateHash s
           \<and> Outbox s' = Outbox s"
      by (subst s'', subst s'', subst s'') (simp add: r o1 h1)
  }
qed

text \<open>
  Claim C1, as amended. When \<^verbatim>\<open>RunFrame\<close> processes frame \<open>F\<close> (the session is active, has
  instances, and the call returns), every instance \<open>i\<close> runs its frame on the input of
  player \<open>i\<close>'s ring slot \<open>F mod 256\<close>, whatever the slot's ready flag is; the flags of
  these slots are cleared afterwards, no other flag changes, and the frame counter
  advances. \<^verbatim>\<open>RunFrame\<close> does not check readiness: \<^verbatim>\<open>ReadyForFrame(F)\<close> is a separate
  query, true exactly when all the slots are ready.
\<close>

theorem RunFrame_applies_slot_unconditionally:
  "Active s \<and> NumInstances s \<noteq> 0 \<and> RunFrame emu xxh s = Inr (r, s') \<longrightarrow>
     CurrentFrame s' = CurrentFrame s + 1
     \<and> (\<forall>i < nat (NumInstances s).
          (\<exists>n. Instances s i = Some n
             \<and> Instances s' i = Some (fst (emu i (apply_input
                  (InputBuf s i (unat (CurrentFrame s) mod INPUT_BUF_SIZE)) n))))
          \<and> \<not> InputReady s' i (unat (CurrentFrame s) mod INPUT_BUF_SIZE))
     \<and> (\<forall>p j. \<not> (p < nat (NumInstances s) \<and> j = unat (CurrentFrame s) mod INPUT_BUF_SIZE)
           \<longrightarrow> InputReady s' p j = InputReady s p j)
     \<and> (ReadyForFrame (CurrentFrame s) s
          \<longleftrightarrow> (\<forall>i < nat (NumInstances s).
                 InputReady s i (unat (CurrentFrame s) mod INPUT_BUF_SIZE)))"
proof (intro impI)
  assume h: "Active s \<and> NumInstances s \<noteq> 0 \<and> RunFrame emu xxh s = Inr (r, s')"
  then have act: "Active s" and ni: "NumInstances s \<noteq> 0"
    and run: "RunFrame emu xxh s = Inr (r, s')" by simp_all
  note f = RunFrame_Inr [OF act ni run]
  let ?k = "unat (CurrentFrame s) mod INPUT_BUF_SIZE"
  have inst: "(\<exists>n. Instances s i = Some n
             \<and> Instances s' i = Some (fst (emu i (apply_input (InputBuf s i ?k) n))))
          \<and> \<not> InputReady s' i ?k" if "i < nat (NumInstances s)" for i
  proof -
    from f(5) that have "Instances s i \<noteq> None"
      by (simp add: list_all_iff)
    then obtain n where n: "Instances s i = Some n" by auto
    show ?thesis by (subst f(3), subst f(4)) (simp add: that n)
  qed
  have other: "InputReady s' p j = InputReady s p j"
    if "\<not> (p < nat (NumInstances s) \<and> j = ?k)" for p j
    using that by (subst f(4)) simp
  have rdy: "ReadyForFrame (CurrentFrame s) s
      \<longleftrightarrow> (\<forall>i < nat (NumInstances s). InputReady s i ?k)"
    by (auto simp add: ReadyForFrame_def list_all_iff)
  from f(1) inst other rdy show "CurrentFrame s' = CurrentFrame s + 1
     \<and> (\<forall>i < nat (NumInstances s).
          (\<exists>n. Instances s i = Some n
             \<and> Instances s' i = Some (fst (emu i (apply_input (InputBuf s i ?k) n))))
          \<and> \<not> InputReady s' i ?k)
     \<and> (\<forall>p j. \<not> (p < nat (NumInstances s) \<and> j = ?k)
           \<longrightarrow> InputReady s' p j = InputReady s p j)
     \<and> (ReadyForFrame (CurrentFrame s) s
          \<longleftrightarrow> (\<forall>i < nat (NumInstances s). InputReady s i ?k))"
    by blast
qed

lemma upt_small: "[0..<2] = [0, 1]" "[0..<4] = [0, 1, 2, 3]" "[0..<5] = [0, 1, 2, 3, 4]"
  by (simp_all add: upt_rec)

lemmas session_eval =
  unready_session_def ready_session_def frame60_session_def RunFrame_def ApplyInputs_def
  run_instances_def CreateInstances_def Init_def Let_def apply_input_def idle_emu_def
  zero_frame_def nds0_def kNetplayMaxPlayers_def session_new_def upt_small INPUT_BUF_SIZE_def
  DESYNC_CHECK_INTERVAL_def desync_check_def prefill_def ReadyForFrame_def

text \<open>
  The claim as stated fails: with input delay 0 no slot is ready at frame 0, and
  \<^verbatim>\<open>RunFrame\<close> still applies the zeroed slot (key mask 0, all buttons pressed) to instance 1
  and advances to frame 1.
\<close>

theorem RunFrame_unready_counterexample:
  "Active unready_session \<and> CurrentFrame unready_session = 0
   \<and> \<not> InputReady unready_session 1 0 \<and> \<not> ReadyForFrame 0 unready_session
   \<and> (case RunFrame idle_emu len_hash unready_session of
        Inl e \<Rightarrow> False
      | Inr (r, s') \<Rightarrow> CurrentFrame s' = 1 \<and> map_option nds_KeyMask (Instances s' 1) = Some 0)"
  by (simp add: session_eval)

theorem RunFrame_applies_slot_unconditionally_witness:
  "Active ready_session \<and> NumInstances ready_session \<noteq> 0
   \<and> (case RunFrame idle_emu len_hash ready_session of
        Inl e \<Rightarrow> False
      | Inr (r, s') \<Rightarrow> CurrentFrame s' = 1 \<and> \<not> InputReady s' 0 0 \<and> \<not> InputReady s' 1 0
                       \<and> InputReady s' 0 1)"
proof -
  have a: "Active ready_session" and n: "NumInstances ready_session = 2"
    and c: "CurrentFrame ready_session = 0" and r1: "InputReady ready_session 0 1"
    by (simp_all add: session_eval)
  have "\<exists>r s'. RunFrame idle_emu len_hash ready_session = Inr (r, s')"
    by (simp add: session_eval)
  then obtain r s' where run: "RunFrame idle_emu len_hash ready_session = Inr (r, s')"
    by blast
  from RunFrame_applies_slot_unconditionally [of ready_session idle_emu len_hash r s'] a n run
  have f: "CurrentFrame s' = CurrentFrame ready_session + 1"
    and g: "\<forall>i < nat (NumInstances ready_session).
          \<not> InputReady s' i (unat (CurrentFrame ready_session) mod INPUT_BUF_SIZE)"
    and k: "\<forall>p j. \<not> (p < nat (NumInstances ready_session)
              \<and> j = unat (CurrentFrame ready_session) mod INPUT_BUF_SIZE)
           \<longrightarrow> InputReady s' p j = InputReady ready_session p j"
    by simp_all
  from g [rule_format, of 0] g [rule_format, of 1] have "\<not> InputReady s' 0 0" "\<not> InputReady s' 1 0"
    by (simp_all add: n c INPUT_BUF_SIZE_def)
  moreover from k [rule_format, of 0 1] r1 have "InputReady s' 0 1"
    by (simp add: n c INPUT_BUF_SIZE_def)
  ultimately show ?thesis using a n f c by (simp add: run)
qed


section \<open>Desync detection\<close>

lemma rd32_Cons: "rd32 (x # xs) (Suc k) = rd32 xs k"
  by (simp add: rd32_def add.commute)


lemma rd32_le32: "rd32 (le32 w @ r) 0 = w"
proof -
  have "ucast (ucast w :: u8) OR push_bit 8 (ucast (ucast (drop_bit 8 w) :: u8))
       OR push_bit 16 (ucast (ucast (drop_bit 16 w) :: u8))
       OR push_bit 24 (ucast (ucast (drop_bit 24 w) :: u8)) = w"
  proof (rule bit_word_eqI)
    fix n assume "n < LENGTH(32)"
    then consider "n < 8" | "8 \<le> n" "n < 16" | "16 \<le> n" "n < 24" | "24 \<le> n" "n < 32"
      by force
    then show "bit (ucast (ucast w :: u8) OR push_bit 8 (ucast (ucast (drop_bit 8 w) :: u8))
       OR push_bit 16 (ucast (ucast (drop_bit 16 w) :: u8))
       OR push_bit 24 (ucast (ucast (drop_bit 24 w) :: u8)) :: u32) n = bit w n"
      by cases (auto simp add: bit_simps)
  qed
  then show ?thesis by (simp add: rd32_def le32_def)
qed

lemma length_le32: "length (le32 w) = 4"
  by (simp add: le32_def)



lemmas msg_types = Msg_BlobStart_def Msg_BlobChunk_def Msg_BlobEnd_def Msg_StartGame_def
  Msg_DesyncAlert_def






section \<open>BlobTransfer\<close>

lemma unat_u8_u32: "unat (ucast (b :: u8) :: u32) = unat b"
proof -
  have "unat b < 2 ^ 8" using unsigned_less [of b] by simp
  then have "unat b < 2 ^ 32" by simp
  then show ?thesis by (simp add: unsigned_ucast_eq take_bit_nat_eq_self)
qed

lemma checksum_loop_sum:
  "unat (checksum_loop bs acc) = (unat acc + sum_list (map unat bs)) mod 2 ^ 32"
proof (induction bs arbitrary: acc)
  case Nil
  have "unat acc < 2 ^ 32" using unsigned_less [of acc] by simp
  then show ?case by simp
next
  case (Cons b bs)
  have "unat (acc + ucast b) = (unat acc + unat b) mod 2 ^ 32"
    by (simp add: unat_word_ariths unat_u8_u32)
  then show ?case
    by (simp add: Cons.IH mod_add_left_eq add.assoc)
qed

lemma checksum_eq_iff:
  "(checksum_loop bs 0 = c) = (sum_list (map unat bs) mod 2 ^ 32 = unat c)"
proof -
  have "(checksum_loop bs 0 = c) = (unat (checksum_loop bs 0) = unat c)"
    by (simp add: word_unat_eq_iff)
  then show ?thesis by (simp add: checksum_loop_sum)
qed

lemma OnMessage_End:
  assumes wf: "blob_wf b" and ne: "data \<noteq> []" and ty: "data ! 0 = Msg_BlobEnd"
  shows "OnMessage data b =
     Inr (Receiving b \<and> 6 \<le> length data
            \<and> sum_list (map unat (Buffer b)) mod 2 ^ 32 = unat (rd32 data 2),
          if Receiving b \<and> 6 \<le> length data
          then (if sum_list (map unat (Buffer b)) mod 2 ^ 32 = unat (rd32 data 2)
                then b\<lparr>Complete := True, Receiving := False\<rparr>
                else b\<lparr>Receiving := False\<rparr>)
          else b)"
proof -
  have tk: "take (unat (TotalLen b)) (Buffer b) = Buffer b"
    using wf by (simp add: blob_wf_def)
  have len: "\<not> length (Buffer b) < unat (TotalLen b)" using wf by (simp add: blob_wf_def)
  have l1: "\<not> length data < 1" using ne by (cases data) simp_all
  show ?thesis
    using l1 len ty
    by (simp add: OnMessage_def Let_def msg_types tk checksum_eq_iff not_less)
qed

lemma OnMessage_Chunk:
  assumes wf: "blob_wf b" and rc: "Receiving b" and l5: "5 \<le> length data"
    and l32: "length data < 2 ^ 32" and ty: "data ! 0 = Msg_BlobChunk"
    and inb: "unat (rd32 data 1) + (length data - 5) \<le> unat (TotalLen b)"
  shows "OnMessage data b =
     Inr (False, b\<lparr>Buffer := take (unat (rd32 data 1)) (Buffer b) @ drop 5 data
                       @ drop (unat (rd32 data 1) + (length data - 5)) (Buffer b),
                    ReceivedLen := ReceivedLen b + word_of_nat (length data - 5)\<rparr>)"
proof -
  let ?cl = "(word_of_nat (length data) :: u32) - 5"
  have n: "unat (word_of_nat (length data) :: u32) = length data"
    using l32 by (simp add: unat_of_nat)
  have "(5 :: u32) \<le> word_of_nat (length data)"
    using l5 n by (simp add: word_le_nat_alt)
  then have cl: "unat ?cl = length data - 5"
    by (simp add: unat_sub n)
  have cl': "?cl = word_of_nat (length data - 5)"
    using l5 by (simp add: of_nat_diff)
  have "unat (TotalLen b) < 2 ^ 32" using unsigned_less [of "TotalLen b"] by simp
  with inb cl have "unat (rd32 data 1) + unat ?cl < 2 ^ LENGTH(32)" by simp
  then have sum: "unat (rd32 data 1 + ?cl) = unat (rd32 data 1) + unat ?cl"
    by (simp only: unat_add_lem)
  have le: "\<not> rd32 data 1 + ?cl > TotalLen b"
    using inb by (simp only: word_less_nat_alt sum cl)
  have ib: "\<not> length (Buffer b) < unat (rd32 data 1) + unat ?cl"
    using wf inb by (simp add: blob_wf_def cl)
  have l1: "data \<noteq> []" "\<not> length data < 5" using l5 by auto
  show ?thesis
    using l1 rc ty le ib
    by (simp add: OnMessage_def Let_def msg_types cl)
qed

lemma OnMessage_wf:
  assumes wf: "blob_wf b" and l32: "length data < 2 ^ 32"
    and r: "OnMessage data b = Inr (r, b')"
  shows "blob_wf b'"
proof -
  have "length data - 5 + (unat (TotalLen b) - (unat (rd32 data 1) + (length data - 5)))
        + unat (rd32 data 1) = unat (TotalLen b)"
    if "unat (rd32 data 1) + (length data - 5) \<le> unat (TotalLen b)"
    using that by simp
  have n: "unat (word_of_nat (length data) :: u32) = length data"
    using l32 by (simp add: unat_of_nat)
  have cl: "unat ((word_of_nat (length data) :: u32) - 5) = length data - 5" if "5 \<le> length data"
  proof -
    have "(5 :: u32) \<le> word_of_nat (length data)"
      using that n by (simp add: word_le_nat_alt)
    then show ?thesis by (simp add: unat_sub n)
  qed
  from r wf show ?thesis
    by (auto simp add: OnMessage_def Let_def blob_wf_def cl min_def not_less split: if_splits)
qed

text \<open>
  Claim C2, as amended. A receiver marks the blob complete, on a \<^verbatim>\<open>BlobEnd\<close>, if and only
  if it is receiving (a \<^verbatim>\<open>BlobStart\<close> was seen and no \<^verbatim>\<open>BlobEnd\<close> since), the message
  has its 6 bytes, and the sum of the bytes of its buffer modulo \<open>2^32\<close> equals the
  checksum the message carries; bytes no chunk has covered count as zero. A chunk that lies
  within \<open>[0, total_len)\<close> is copied at its offset whatever was received before it, out of
  order or a second time, and its length is added to the received count.
\<close>

theorem blob_completes_iff_buffer_checksum:
  "(blob_wf b \<and> data \<noteq> [] \<and> data ! 0 = Msg_BlobEnd \<longrightarrow>
      (case OnMessage data b of
         Inl e \<Rightarrow> False
       | Inr (r, b') \<Rightarrow>
           (r \<longleftrightarrow> Receiving b \<and> 6 \<le> length data
                  \<and> sum_list (map unat (Buffer b)) mod 2 ^ 32 = unat (rd32 data 2))
           \<and> (Complete b' \<longleftrightarrow> r \<or> Complete b)
           \<and> Buffer b' = Buffer b \<and> TotalLen b' = TotalLen b))
   \<and> (blob_wf b \<and> Receiving b \<and> 5 \<le> length chunk \<and> length chunk < 2 ^ 32
        \<and> chunk ! 0 = Msg_BlobChunk
        \<and> unat (rd32 chunk 1) + (length chunk - 5) \<le> unat (TotalLen b) \<longrightarrow>
      OnMessage chunk b =
        Inr (False, b\<lparr>Buffer := take (unat (rd32 chunk 1)) (Buffer b) @ drop 5 chunk
                         @ drop (unat (rd32 chunk 1) + (length chunk - 5)) (Buffer b),
                       ReceivedLen := ReceivedLen b + word_of_nat (length chunk - 5)\<rparr>))"
proof -
  have A: "case OnMessage data b of
         Inl e \<Rightarrow> False
       | Inr (r, b') \<Rightarrow>
           (r \<longleftrightarrow> Receiving b \<and> 6 \<le> length data
                  \<and> sum_list (map unat (Buffer b)) mod 2 ^ 32 = unat (rd32 data 2))
           \<and> (Complete b' \<longleftrightarrow> r \<or> Complete b)
           \<and> Buffer b' = Buffer b \<and> TotalLen b' = TotalLen b"
    if "blob_wf b \<and> data \<noteq> [] \<and> data ! 0 = Msg_BlobEnd"
  proof -
    from that have "blob_wf b" "data \<noteq> []" "data ! 0 = Msg_BlobEnd" by simp_all
    from OnMessage_End [OF this] show ?thesis by auto
  qed
  have B: "OnMessage chunk b =
        Inr (False, b\<lparr>Buffer := take (unat (rd32 chunk 1)) (Buffer b) @ drop 5 chunk
                         @ drop (unat (rd32 chunk 1) + (length chunk - 5)) (Buffer b),
                       ReceivedLen := ReceivedLen b + word_of_nat (length chunk - 5)\<rparr>)"
    if "blob_wf b \<and> Receiving b \<and> 5 \<le> length chunk \<and> length chunk < 2 ^ 32
        \<and> chunk ! 0 = Msg_BlobChunk
        \<and> unat (rd32 chunk 1) + (length chunk - 5) \<le> unat (TotalLen b)"
  proof -
    from that have "blob_wf b" "Receiving b" "5 \<le> length chunk" "length chunk < 2 ^ 32"
      "chunk ! 0 = Msg_BlobChunk"
      "unat (rd32 chunk 1) + (length chunk - 5) \<le> unat (TotalLen b)"
      by blast+
    then show ?thesis by (rule OnMessage_Chunk)
  qed
  from A B show ?thesis by blast
qed

theorem blob_completes_iff_buffer_checksum_witness:
  "blob_wf receiving_blob \<and> Receiving receiving_blob
   \<and> (case OnMessage (MsgBlobEnd 1 3) receiving_blob of
         Inl e \<Rightarrow> False
       | Inr (r, b') \<Rightarrow> r \<and> Complete b' \<and> Buffer b' = [3, 0])
   \<and> (case OnMessage (MsgBlobEnd 1 4) receiving_blob of
         Inl e \<Rightarrow> False
       | Inr (r, b') \<Rightarrow> \<not> r \<and> \<not> Complete b')
   \<and> OnMessage (MsgBlobChunk 0 [9]) receiving_blob
       = Inr (False, receiving_blob\<lparr>Buffer := [9, 0], ReceivedLen := 2\<rparr>)"
proof -
  have pre: "blob_wf receiving_blob" "Receiving receiving_blob"
    "\<not> Complete receiving_blob" "Buffer receiving_blob = [3, 0]"
    "TotalLen receiving_blob = 2" "ReceivedLen receiving_blob = 1"
    by (simp_all add: receiving_blob_def blob_wf_def)
  have e3: "MsgBlobEnd 1 3 \<noteq> []" "MsgBlobEnd 1 3 ! 0 = Msg_BlobEnd"
    "length (MsgBlobEnd 1 3) = 6" "rd32 (MsgBlobEnd 1 3) 2 = 3"
    by (simp_all add: MsgBlobEnd_def le32_def rd32_def)
  have e4: "MsgBlobEnd 1 4 \<noteq> []" "MsgBlobEnd 1 4 ! 0 = Msg_BlobEnd"
    "length (MsgBlobEnd 1 4) = 6" "rd32 (MsgBlobEnd 1 4) 2 = 4"
    by (simp_all add: MsgBlobEnd_def le32_def rd32_def)
  have c: "length (MsgBlobChunk 0 [9]) = 6" "MsgBlobChunk 0 [9] ! 0 = Msg_BlobChunk"
    "rd32 (MsgBlobChunk 0 [9]) 1 = 0" "drop 5 (MsgBlobChunk 0 [9]) = [9]"
    by (simp_all add: MsgBlobChunk_def le32_def rd32_def)
  from blob_completes_iff_buffer_checksum [of receiving_blob "MsgBlobEnd 1 3" "MsgBlobChunk 0 [9]"]
    pre e3 c
  have a: "case OnMessage (MsgBlobEnd 1 3) receiving_blob of
         Inl e \<Rightarrow> False
       | Inr (r, b') \<Rightarrow> r \<and> Complete b' \<and> Buffer b' = [3, 0]"
    and k: "OnMessage (MsgBlobChunk 0 [9]) receiving_blob
       = Inr (False, receiving_blob\<lparr>Buffer := [9, 0], ReceivedLen := 2\<rparr>)"
    by (auto split: sum.splits)
  from blob_completes_iff_buffer_checksum [of receiving_blob "MsgBlobEnd 1 4" "MsgBlobChunk 0 [9]"]
    pre e4
  have b: "case OnMessage (MsgBlobEnd 1 4) receiving_blob of
         Inl e \<Rightarrow> False
       | Inr (r, b') \<Rightarrow> \<not> r \<and> \<not> Complete b'"
    by (auto split: sum.splits)
  from pre a b k show ?thesis by simp
qed

lemmas blob_eval = MsgBlobStart_def MsgBlobChunk_def MsgBlobEnd_def le32_def rd32_def
  OnMessage_def Let_def blob_new_def msg_types uncovered_transfer_def duplicate_transfer_def
  reordered_transfer_def chunk_covers_def cover_count_def spec_covered_once_def

text \<open>
  The claim as stated fails: a transfer that never covers byte 1 completes (the checksum
  of the zero-filled buffer matches), a chunk sent twice is applied twice (three bytes
  counted as received for a blob of two), and chunks that arrive last first are applied.
\<close>

theorem blob_completes_uncovered_counterexample:
  "(case feed uncovered_transfer blob_new of
      Inl e \<Rightarrow> False
    | Inr b \<Rightarrow> Complete b \<and> Buffer b = [3, 0])
   \<and> cover_count uncovered_transfer 1 = 0
   \<and> \<not> spec_covered_once 2 uncovered_transfer
   \<and> (case feed duplicate_transfer blob_new of
      Inl e \<Rightarrow> False
    | Inr b \<Rightarrow> Complete b \<and> Buffer b = [1, 1] \<and> ReceivedLen b = 3)
   \<and> cover_count duplicate_transfer 0 = 2
   \<and> (case feed reordered_transfer blob_new of
      Inl e \<Rightarrow> False
    | Inr b \<Rightarrow> Complete b \<and> Buffer b = [7, 5])"
  by (simp add: blob_eval upt_small)

lemma rd32_MsgBlobChunk: "rd32 (MsgBlobChunk off bytes) 1 = off"
  using rd32_Cons [of Msg_BlobChunk "le32 off @ bytes" 0]
  by (simp add: MsgBlobChunk_def rd32_le32)

lemma rd32_MsgBlobStart: "rd32 (MsgBlobStart ty n) 2 = n"
  using rd32_Cons [of Msg_BlobStart "ty # le32 n" 1] rd32_Cons [of ty "le32 n" 0]
    rd32_le32 [of n "[]"]
  by (simp add: MsgBlobStart_def eval_nat_numeral)

lemma rd32_MsgBlobEnd: "rd32 (MsgBlobEnd ty n) 2 = n"
  using rd32_Cons [of Msg_BlobEnd "ty # le32 n" 1] rd32_Cons [of ty "le32 n" 0]
    rd32_le32 [of n "[]"]
  by (simp add: MsgBlobEnd_def eval_nat_numeral)

lemma feed_append:
  "feed (xs @ ys) b = (case feed xs b of Inl e \<Rightarrow> Inl e | Inr b' \<Rightarrow> feed ys b')"
  by (induction xs arbitrary: b) (auto split: sum.splits)

lemma feed_chunks:
  "Receiving b \<Longrightarrow> unat (TotalLen b) = offset + length remaining \<Longrightarrow>
   Buffer b = pre @ replicate (length remaining) 0 \<Longrightarrow> length pre = offset \<Longrightarrow>
   feed (send_chunks offset remaining) b
     = Inr (b\<lparr>Buffer := pre @ remaining,
               ReceivedLen := ReceivedLen b + word_of_nat (length remaining)\<rparr>)"
proof (induction offset remaining arbitrary: b pre rule: send_chunks.induct)
  case (1 offset remaining)
  show ?case
  proof (cases "remaining = []")
    case True
    then show ?thesis using "1.prems" by (simp add: send_chunks.simps [of offset "[]"])
  next
    case False
    let ?k = "min kBlobChunkSize (length remaining)"
    let ?m = "MsgBlobChunk (word_of_nat offset) (take kBlobChunkSize remaining)"
    have tl: "unat (TotalLen b) < 2 ^ 32" using unsigned_less [of "TotalLen b"] by simp
    have off: "unat (word_of_nat offset :: u32) = offset"
      using tl "1.prems"(2) by (simp add: unat_of_nat)
    have lm: "length ?m = 5 + ?k"
      by (simp add: MsgBlobChunk_def length_le32 min.commute)
    have wf: "blob_wf b" using "1.prems" by (simp add: blob_wf_def)
    have l5: "5 \<le> length ?m" using lm by simp
    have l32: "length ?m < 2 ^ 32" using lm by (simp add: kBlobChunkSize_def min_def)
    have ty: "?m ! 0 = Msg_BlobChunk" by (simp add: MsgBlobChunk_def)
    have inb: "unat (rd32 ?m 1) + (length ?m - 5) \<le> unat (TotalLen b)"
      using "1.prems"(2) by (simp only: rd32_MsgBlobChunk off lm)
    have dr: "drop 5 ?m = take kBlobChunkSize remaining"
      by (simp add: MsgBlobChunk_def le32_def)
    let ?b1 = "b\<lparr>Buffer := (pre @ take kBlobChunkSize remaining)
                       @ replicate (length (drop kBlobChunkSize remaining)) 0,
                   ReceivedLen := ReceivedLen b + word_of_nat ?k\<rparr>"
    have buf: "take offset (Buffer b) @ take kBlobChunkSize remaining
          @ drop (offset + ?k) (Buffer b)
        = (pre @ take kBlobChunkSize remaining)
            @ replicate (length (drop kBlobChunkSize remaining)) 0"
      using "1.prems"(3,4) by (simp add: min_def)
    have lk: "length ?m - 5 = ?k" using lm by simp
    have step: "OnMessage ?m b = Inr (False, ?b1)"
      using OnMessage_Chunk [OF wf "1.prems"(1) l5 l32 ty inb]
      by (simp only: rd32_MsgBlobChunk off lk dr buf)
    have ih: "feed (send_chunks (offset + ?k) (drop kBlobChunkSize remaining)) ?b1
        = Inr (?b1\<lparr>Buffer := (pre @ take kBlobChunkSize remaining) @ drop kBlobChunkSize remaining,
                     ReceivedLen := ReceivedLen ?b1
                       + word_of_nat (length (drop kBlobChunkSize remaining))\<rparr>)"
      using "1.prems" by (intro "1.IH" [OF False]) (auto simp add: min_def)
    have rl: "(word_of_nat ?k :: u32) + word_of_nat (length (drop kBlobChunkSize remaining))
        = word_of_nat (length remaining)"
      by (simp add: min_def flip: of_nat_add)
    show ?thesis
      using False step ih rl
      by (simp add: send_chunks.simps [of offset remaining] add.assoc)
  qed
qed

text \<open>
  What \<^verbatim>\<open>Send\<close> emits for a blob shorter than \<open>2^32\<close> bytes, fed in order to any receiver,
  completes it with the blob in its buffer.
\<close>

theorem blob_send_receive_roundtrip:
  "length data < 2 ^ 32 \<longrightarrow>
     (case feed (BlobSend ty data) b0 of
        Inl e \<Rightarrow> False
      | Inr b \<Rightarrow> Complete b \<and> \<not> Receiving b \<and> Buffer b = data \<and> BType b = ty
                \<and> unat (TotalLen b) = length data \<and> unat (ReceivedLen b) = length data)"
proof
  assume l32: "length data < 2 ^ 32"
  let ?n = "word_of_nat (length data) :: u32"
  have n: "unat ?n = length data" using l32 by (simp add: unat_of_nat)
  define b1 where "b1 = b0\<lparr>BType := ty, TotalLen := ?n, ReceivedLen := 0,
                Buffer := replicate (length data) 0, Complete := False, Receiving := True\<rparr>"
  have start: "OnMessage (MsgBlobStart ty ?n) b0 = Inr (False, b1)"
    unfolding b1_def using rd32_MsgBlobStart [of ty ?n]
    by (simp add: OnMessage_def Let_def n) (simp add: MsgBlobStart_def msg_types length_le32)
  define b2 where "b2 = b1\<lparr>Buffer := [] @ data, ReceivedLen := ReceivedLen b1 + ?n\<rparr>"
  have chunks: "feed (send_chunks 0 data) b1 = Inr b2"
    unfolding b2_def by (rule feed_chunks) (simp_all add: n b1_def)
  have f2: "Buffer b2 = data" "TotalLen b2 = ?n" "ReceivedLen b2 = ?n" "Receiving b2"
    "BType b2 = ty"
    by (simp_all add: b2_def b1_def)
  have wf2: "blob_wf b2" by (simp add: blob_wf_def n f2)
  have e: "MsgBlobEnd ty (checksum_loop data 0) \<noteq> []"
    "MsgBlobEnd ty (checksum_loop data 0) ! 0 = Msg_BlobEnd"
    "length (MsgBlobEnd ty (checksum_loop data 0)) = 6"
    by (simp_all add: MsgBlobEnd_def length_le32)
  have fin: "OnMessage (MsgBlobEnd ty (checksum_loop data 0)) b2
      = Inr (True, b2\<lparr>Complete := True, Receiving := False\<rparr>)"
    using OnMessage_End [OF wf2 e(1) e(2)]
    by (simp add: e(3) rd32_MsgBlobEnd checksum_loop_sum f2)
  have "feed (BlobSend ty data) b0 = Inr (b2\<lparr>Complete := True, Receiving := False\<rparr>)"
    by (simp add: BlobSend_def start feed_append chunks fin)
  then show "case feed (BlobSend ty data) b0 of
        Inl e \<Rightarrow> False
      | Inr b \<Rightarrow> Complete b \<and> \<not> Receiving b \<and> Buffer b = data \<and> BType b = ty
                \<and> unat (TotalLen b) = length data \<and> unat (ReceivedLen b) = length data"
    by (simp add: f2 n)
qed

lemma savestate0_transfer_msgs:
  "savestate0_transfer = [MsgBlobStart 1 1, MsgBlobChunk 0 [7], MsgBlobEnd 1 7]"
  by (simp add: savestate0_transfer_def BlobSend_def send_chunks.simps [of _ "[7]"]
      send_chunks.simps [of _ "[]"] kBlobChunkSize_def)

text \<open>
  Claim C6 at its failing input. The messages of a savestate transfer for instance 0 (blob
  type 1) are given to every receiver in turn: the \<^verbatim>\<open>BlobStart\<close> resets the receiver of
  index 0 (the SRAM receiver), and the \<^verbatim>\<open>BlobEnd\<close> completes that receiver and stops the
  loop, so the receiver of index 1, which the client waits for, is never complete.
\<close>

theorem savestate_blob_completes_sram_receiver:
  "(case handle_all [MsgBlobStart 1 1] session_new of
      Inl e \<Rightarrow> False
    | Inr s \<Rightarrow> Receiving (BlobRecv s 0) \<and> BType (BlobRecv s 0) = 1 \<and> TotalLen (BlobRecv s 0) = 1)
   \<and> (case handle_all savestate0_transfer session_new of
      Inl e \<Rightarrow> False
    | Inr s \<Rightarrow> Complete (BlobRecv s 0) \<and> BType (BlobRecv s 0) = 1 \<and> Buffer (BlobRecv s 0) = [7]
              \<and> \<not> Complete (BlobRecv s 1) \<and> Receiving (BlobRecv s 1))"
  by (simp add: savestate0_transfer_msgs HandleControlMessage_def blob_eval session_new_def
      Blob_MAX_def upt_small)


section \<open>LAN: receiving MP packets\<close>

lemmas lan_eval = lan_host_def lan_new_def reply_packet_def empty_reply_packet_def
  frame_packet_def RecvHostPacket_def RecvPacket_def RecvPacketGeneric_def ProcessLAN_def
  RecvReplies_def collect_def drained_def Let_def

text \<open>
  Claim C4 at its failing input. A reply queued at wall-clock 1099 is still in the queue
  at 1600, 501 ms later. \<^verbatim>\<open>RecvReplies\<close> never reads the receive wall-clock: it returns the
  reply's bit and copies its payload to the caller. The sibling paths do what the claim
  says: \<^verbatim>\<open>RecvHostPacket\<close> and \<^verbatim>\<open>RecvPacket\<close> at 1600 destroy a packet queued at 1099 and
  return 0.
\<close>

theorem stale_reply_delivered_by_RecvReplies:
  "Magic (header reply_packet) = 1099
   \<and> (case RecvReplies 15 [\<lparr>t_arrived = [], t_connmask = 3, t_clock = 1600\<rparr>] 1600 0x200000 2
            (lan_host [reply_packet]) of
        Some (Inr (ret, copies, s')) \<Rightarrow>
          ret = 2 \<and> copies = [(0, [0xAB])] \<and> RXQueue s' = []
      | _ \<Rightarrow> False)
   \<and> (case RecvHostPacket 1600 [] (lan_host [reply_packet]) of
        Inl e \<Rightarrow> False
      | Inr (len, bytes, ts, s') \<Rightarrow>
          len = 0 \<and> bytes = [] \<and> ts = None \<and> Destroyed s' = [reply_packet])
   \<and> (case RecvPacket 1600 [] (lan_host [frame_packet]) of
        Inl e \<Rightarrow> False
      | Inr (len, bytes, ts, s') \<Rightarrow>
          len = 0 \<and> bytes = [] \<and> ts = None \<and> Destroyed s' = [frame_packet])"
  by (simp add: lan_eval)

text \<open>
  Claim C5 as stated fails: \<^verbatim>\<open>RecvHostPacket\<close> delivers a fresh bulk frame (type 0, not a
  command) at once, and with an empty queue it returns 0 after one sleep of 2 ms, though
  the MP receive timeout is 25.
\<close>

theorem RecvHostPacket_delivers_any_type_counterexample:
  "Type (header frame_packet) = 0
   \<and> (case RecvHostPacket 1100 [] (lan_host [frame_packet]) of
        Inl e \<Rightarrow> False
      | Inr (len, bytes, ts, s') \<Rightarrow>
          len = 1 \<and> bytes = [0xCD] \<and> ts = Some 0x200000 \<and> Slept s' = 0)
   \<and> MPRecvTimeout (lan_host []) = 25
   \<and> (case RecvHostPacket 1100 [] (lan_host []) of
        Inl e \<Rightarrow> False
      | Inr (len, bytes, ts, s') \<Rightarrow> len = 0 \<and> Slept s' = 2)"
  by (simp add: lan_eval)

text \<open>
  Claim C3 as stated fails: a reply of player 1 with association id 1 and an empty
  payload is dequeued and accepted, and ends the call at once because every connected
  player has now replied; the mask returned is 0, without the bit of association id 1.
\<close>

theorem empty_reply_sets_no_bit_counterexample:
  "(Type (header empty_reply_packet) AND 0xFFFF) = 2
   \<and> drop_bit 16 (Type (header empty_reply_packet)) = 1
   \<and> SenderID (header empty_reply_packet) = 1
   \<and> (case RecvReplies 15 [\<lparr>t_arrived = [], t_connmask = 3, t_clock = 1100\<rparr>] 1100 0x200000 2
            (lan_host [empty_reply_packet]) of
        Some (Inr (ret, copies, s')) \<Rightarrow>
          ret = 0 \<and> copies = [] \<and> RXQueue s' = [] \<and> Destroyed s' = [empty_reply_packet]
          \<and> Slept s' = 0
      | _ \<Rightarrow> False)"
  by (simp add: lan_eval)

lemma discard_stale_block:
  "discard_stale 2 now q
     = (dropWhile (stale now) q \<noteq> [], dropWhile (stale now) q, takeWhile (stale now) q)"
  by (induction q) (auto simp add: stale_def)

lemma ProcessLAN_block:
  "Host s \<Longrightarrow> ProcessLAN 2 now s =
     s\<lparr>RXQueue := dropWhile (stale now) (RXQueue s),
       Destroyed := Destroyed s @ takeWhile (stale now) (RXQueue s),
       Slept := Slept s + (if dropWhile (stale now) (RXQueue s) = [] then 2 else 0)\<rparr>"
  by (simp add: ProcessLAN_def discard_stale_block Let_def)

lemma RecvHostPacket_queue:
  assumes h: "Host s"
  shows "RecvHostPacket now arrived s =
     (case dropWhile (stale now) (RXQueue s) @ arrived of
        [] \<Rightarrow> Inr (0, [], None,
                 s\<lparr>RXQueue := [],
                   Destroyed := Destroyed s @ takeWhile (stale now) (RXQueue s),
                   Slept := Slept s + 2\<rparr>)
      | p # q \<Rightarrow>
          (let s3 = s\<lparr>RXQueue := q,
                      Destroyed := Destroyed s @ takeWhile (stale now) (RXQueue s) @ [p],
                      Slept := Slept s + (if dropWhile (stale now) (RXQueue s) = [] then 2 else 0)\<rparr>
           in if Length (header p) = 0 then Inr (0, [], Some (Timestamp (header p)), s3)
              else if length (payload p)
                      < unat (if Length (header p) > 2048 then 2048 else Length (header p))
                then Inl OutOfBounds
              else Inr (if Length (header p) > 2048 then 2048 else Length (header p),
                     take (unat (if Length (header p) > 2048 then 2048 else Length (header p)))
                       (payload p),
                     Some (Timestamp (header p)),
                     if Type (header p) = 1
                     then s3\<lparr>LastHostID := sint (SenderID (header p)),
                             LastHostPeer := userData p\<rparr>
                     else s3)))"
proof (cases "dropWhile (stale now) (RXQueue s) @ arrived")
  case Nil
  then have f: "dropWhile (stale now) (RXQueue s) = []" "arrived = []" by simp_all
  show ?thesis
    using h by (simp add: RecvHostPacket_def RecvPacketGeneric_def ProcessLAN_block f)
next
  case (Cons p q)
  have "RXQueue ((ProcessLAN 2 now s)\<lparr>RXQueue := RXQueue (ProcessLAN 2 now s) @ arrived\<rparr>)
      = p # q"
    using h Cons by (simp add: ProcessLAN_block)
  then show ?thesis
    using h Cons
    by (simp add: RecvHostPacket_def RecvPacketGeneric_def Let_def)
      (simp add: ProcessLAN_block)
qed

text \<open>
  Claim C5, as amended. \<^verbatim>\<open>RecvHostPacket\<close> destroys the stale packets at the front of the
  queue. If a packet is left it delivers the first one at once, whatever its type. If none
  is left it sleeps once, for 2 ms, and delivers the first packet queued meanwhile,
  whatever its type, or returns 0 when there is none. The sender is recorded as last host
  only when the packet delivered is a command (type 1) with a payload.
\<close>

theorem RecvHostPacket_sleeps_once_any_type:
  "Host s \<longrightarrow>
     (case RecvHostPacket now arrived s of
        Inl e \<Rightarrow> e = OutOfBounds
      | Inr (len, bytes, ts, s') \<Rightarrow>
          Slept s' = Slept s + (if dropWhile (stale now) (RXQueue s) = [] then 2 else 0)
          \<and> Destroyed s' = Destroyed s @ takeWhile (stale now) (RXQueue s)
                @ take 1 (dropWhile (stale now) (RXQueue s) @ arrived)
          \<and> RXQueue s' = drop 1 (dropWhile (stale now) (RXQueue s) @ arrived)
          \<and> (case dropWhile (stale now) (RXQueue s) @ arrived of
                [] \<Rightarrow> len = 0 \<and> bytes = [] \<and> ts = None \<and> LastHostID s' = LastHostID s
              | p # q \<Rightarrow> delivered p s (len, bytes, ts, s')))"
proof
  assume h: "Host s"
  show "case RecvHostPacket now arrived s of
        Inl e \<Rightarrow> e = OutOfBounds
      | Inr (len, bytes, ts, s') \<Rightarrow>
          Slept s' = Slept s + (if dropWhile (stale now) (RXQueue s) = [] then 2 else 0)
          \<and> Destroyed s' = Destroyed s @ takeWhile (stale now) (RXQueue s)
                @ take 1 (dropWhile (stale now) (RXQueue s) @ arrived)
          \<and> RXQueue s' = drop 1 (dropWhile (stale now) (RXQueue s) @ arrived)
          \<and> (case dropWhile (stale now) (RXQueue s) @ arrived of
                [] \<Rightarrow> len = 0 \<and> bytes = [] \<and> ts = None \<and> LastHostID s' = LastHostID s
              | p # q \<Rightarrow> delivered p s (len, bytes, ts, s'))"
  proof (cases "dropWhile (stale now) (RXQueue s) @ arrived")
    case Nil
    then have f: "dropWhile (stale now) (RXQueue s) = []" "arrived = []" by simp_all
    show ?thesis
      unfolding RecvHostPacket_queue [OF h] by (simp add: f)
  next
    case (Cons p q)
    show ?thesis
      unfolding RecvHostPacket_queue [OF h] Cons
      by (simp add: Let_def delivered_def)
  qed
qed

theorem RecvHostPacket_sleeps_once_any_type_witness:
  "Host (lan_host [reply_packet, frame_packet])
   \<and> (case RecvHostPacket 1600 [frame_packet] (lan_host [reply_packet, frame_packet]) of
        Inl e \<Rightarrow> False
      | Inr (len, bytes, ts, s') \<Rightarrow>
          Slept s' = 2 \<and> Destroyed s' = [reply_packet, frame_packet, frame_packet]
          \<and> RXQueue s' = [] \<and> len = 1 \<and> bytes = [0xCD] \<and> LastHostID s' = - 1)"
proof -
  have h: "Host (lan_host [reply_packet, frame_packet])" by (simp add: lan_eval)
  have st: "stale 1600 reply_packet" "stale 1600 frame_packet"
    by (simp_all add: stale_def lan_eval)
  have f: "Slept (lan_host [reply_packet, frame_packet]) = 0"
    "Destroyed (lan_host [reply_packet, frame_packet]) = []"
    "RXQueue (lan_host [reply_packet, frame_packet]) = [reply_packet, frame_packet]"
    "LastHostID (lan_host [reply_packet, frame_packet]) = - 1"
    by (simp_all add: lan_eval)
  have p: "Length (header frame_packet) = 1" "payload frame_packet = [0xCD]"
    "Type (header frame_packet) = 0"
    by (simp_all add: lan_eval)
  have "\<exists>res. RecvHostPacket 1600 [frame_packet] (lan_host [reply_packet, frame_packet])
      = Inr res"
    by (simp add: lan_eval)
  then obtain res where
    r: "RecvHostPacket 1600 [frame_packet] (lan_host [reply_packet, frame_packet]) = Inr res"
    by blast
  from RecvHostPacket_sleeps_once_any_type
    [of "lan_host [reply_packet, frame_packet]" 1600 "[frame_packet]"] h
  show ?thesis
    by (cases res) (auto simp add: r st f p delivered_def)
qed

lemma bit_aid_mask:
  "bit (ucast (push_bit a (1 :: u32)) :: u16) k \<longleftrightarrow> k = a \<and> a < 16"
  by (auto simp add: bit_simps)

lemma collect_bits:
  assumes "collect nslots p ret = Inr (ret1, c1)"
    and "(Type (header p) AND 0xFFFF) = 2"
    and "\<not> Timestamp (header p) < ts - 0x100000"
  shows "bit ret1 k \<longleftrightarrow> bit ret k \<or> (counted ts p k \<and> k < 16)"
  using assms
  by (auto simp add: collect_def counted_def Let_def bit_simps split: if_splits)

lemma drain_bits:
  "drain nslots ts am cm q ret mym = Inr (fl, ret', mym', c, rest, d) \<Longrightarrow>
     q = d @ rest
     \<and> (\<forall>k. bit ret' k \<longleftrightarrow> bit ret k \<or> (\<exists>p \<in> set d. counted ts p k \<and> k < 16))
     \<and> (fl \<longrightarrow> (mym' AND cm) = cm \<or> (ret' AND am) = am)
     \<and> (\<not> fl \<longrightarrow> rest = [])"
proof (induction q arbitrary: ret mym fl ret' mym' c rest d)
  case Nil
  then show ?case by simp
next
  case (Cons p q)
  show ?case
  proof (cases "(Type (header p) AND 0xFFFF) \<noteq> 2 \<or> Timestamp (header p) < ts - 0x100000")
    case True
    then have nc: "\<not> counted ts p k" for k by (auto simp add: counted_def)
    have "drain nslots ts am cm (p # q) ret mym
        = drained p [] (drain nslots ts am cm q ret mym)"
      using True by (cases "(Type (header p) AND 0xFFFF) \<noteq> 2") simp_all
    with Cons.prems have
      "drained p [] (drain nslots ts am cm q ret mym) = Inr (fl, ret', mym', c, rest, d)"
      by simp
    then obtain c' d' where
      r: "drain nslots ts am cm q ret mym = Inr (fl, ret', mym', c', rest, d')"
      and d: "d = p # d'"
      by (auto simp add: drained_def split: sum.splits)
    from Cons.IH [OF r] d nc show ?thesis by simp
  next
    case False
    then have ty: "(Type (header p) AND 0xFFFF) = 2"
      and tm: "\<not> Timestamp (header p) < ts - 0x100000" by simp_all
    let ?m = "mym OR ucast (push_bit (unat (SenderID (header p))) (1 :: u32))"
    have "drain nslots ts am cm (p # q) ret mym
        = (case collect nslots p ret of
             Inl e \<Rightarrow> Inl e
           | Inr (ret1, c1) \<Rightarrow>
               if 32 \<le> unat (SenderID (header p)) then Inl UndefinedShift
               else if (?m AND cm) = cm \<or> (ret1 AND am) = am
                 then Inr (True, ret1, ?m, c1, q, [p])
               else drained p c1 (drain nslots ts am cm q ret1 ?m))"
      using ty tm by (auto simp add: Let_def split: sum.splits)
    with Cons.prems have eq: "(case collect nslots p ret of
             Inl e \<Rightarrow> Inl e
           | Inr (ret1, c1) \<Rightarrow>
               if 32 \<le> unat (SenderID (header p)) then Inl UndefinedShift
               else if (?m AND cm) = cm \<or> (ret1 AND am) = am
                 then Inr (True, ret1, ?m, c1, q, [p])
               else drained p c1 (drain nslots ts am cm q ret1 ?m))
        = Inr (fl, ret', mym', c, rest, d)"
      by simp
    then obtain ret1 c1 where
      col: "collect nslots p ret = Inr (ret1, c1)"
      by (auto split: sum.splits)
    note cb = collect_bits [OF col ty tm]
    from eq col have sh: "\<not> 32 \<le> unat (SenderID (header p))"
      by (auto split: if_splits)
    show ?thesis
    proof (cases "(?m AND cm) = cm \<or> (ret1 AND am) = am")
      case True
      with eq col sh have
        "fl" "ret' = ret1" "mym' = ?m" "rest = q" "d = [p]"
        by auto
      with True cb show ?thesis by auto
    next
      case False
      with eq col sh have
        "drained p c1 (drain nslots ts am cm q ret1 ?m) = Inr (fl, ret', mym', c, rest, d)"
        by simp
      then obtain c' d' where
        r: "drain nslots ts am cm q ret1 ?m = Inr (fl, ret', mym', c', rest, d')"
        and d: "d = p # d'"
        by (auto simp add: drained_def split: sum.splits)
      from Cons.IH [OF r] d cb show ?thesis by auto
    qed
  qed
qed

lemma reply_loop_bits:
  "reply_loop nslots ts am t0 tmo ticks q ret mym = Some (Inr (ret', c, rest, d, sl)) \<Longrightarrow>
     d @ rest = q @ concat (map t_arrived (take (Suc sl) ticks))
     \<and> (\<forall>k. bit ret' k \<longleftrightarrow> bit ret k \<or> (\<exists>p \<in> set d. counted ts p k \<and> k < 16))"
proof (induction ticks arbitrary: q ret mym ret' c rest d sl)
  case Nil
  then show ?case by simp
next
  case (Cons r rs)
  from Cons.prems obtain x where
    "drain nslots ts am (t_connmask r) (q @ t_arrived r) ret mym = Inr x"
    by (cases "drain nslots ts am (t_connmask r) (q @ t_arrived r) ret mym") simp_all
  then obtain fl ret1 mym1 c1 rest1 d1 where
    dr: "drain nslots ts am (t_connmask r) (q @ t_arrived r) ret mym
           = Inr (fl, ret1, mym1, c1, rest1, d1)"
    by (cases x) auto
  note db = drain_bits [OF dr]
  show ?case
  proof (cases "fl \<or> tmo - sint (t_clock r - t0) \<le> 0")
    case True
    with Cons.prems dr have "ret' = ret1" "rest = rest1" "d = d1" "sl = 0"
      by (auto split: if_splits)
    with db show ?thesis by simp
  next
    case False
    with Cons.prems dr obtain ret2 c2 rest2 d2 sl2 where
      rl: "reply_loop nslots ts am t0 tmo rs rest1 ret1 mym1 = Some (Inr (ret2, c2, rest2, d2, sl2))"
      and e: "ret' = ret2" "rest = rest2" "d = d1 @ d2" "sl = sl2 + 1"
      by (auto split: option.splits sum.splits)
    from False db have r1: "rest1 = []" by simp
    from Cons.IH [OF rl] db e r1 show ?thesis by auto
  qed
qed

lemma reply_loop_terminates:
  "list_ex (\<lambda>r. tmo - sint (t_clock r - t0) \<le> 0) ticks \<Longrightarrow>
     reply_loop nslots ts am t0 tmo ticks q ret mym \<noteq> None"
proof (induction ticks arbitrary: q ret mym)
  case Nil
  then show ?case by simp
next
  case (Cons r rs)
  show ?case
  proof (cases "tmo - sint (t_clock r - t0) \<le> 0")
    case True
    then show ?thesis by (auto split: sum.splits)
  next
    case False
    with Cons.prems have "list_ex (\<lambda>r. tmo - sint (t_clock r - t0) \<le> 0) rs" by simp
    from Cons.IH [OF this] have
      ih: "reply_loop nslots ts am t0 tmo rs q' ret1 mym1 \<noteq> None" for q' ret1 mym1 .
    show ?thesis
    proof (cases "drain nslots ts am (t_connmask r) (q @ t_arrived r) ret mym")
      case (Inl e)
      then show ?thesis by simp
    next
      case (Inr x)
      obtain fl ret1 mym1 c1 rest1 d1 where x: "x = (fl, ret1, mym1, c1, rest1, d1)"
        by (cases x) auto
      from ih [of rest1 ret1 mym1] obtain y where
        y: "reply_loop nslots ts am t0 tmo rs rest1 ret1 mym1 = Some y" by auto
      show ?thesis
        using Inr x y by (cases y) (auto split: prod.splits)
    qed
  qed
qed

lemma mask_covers_iff:
  "(m AND c) = c \<longleftrightarrow> (\<forall>k<16. bit c k \<longrightarrow> bit m k)" for m c :: u16
proof
  assume "(m AND c) = c"
  then have "bit (m AND c) k = bit c k" for k by simp
  then show "\<forall>k<16. bit c k \<longrightarrow> bit m k" by (auto simp add: bit_and_iff)
next
  assume a: "\<forall>k<16. bit c k \<longrightarrow> bit m k"
  show "(m AND c) = c"
  proof (rule bit_word_eqI)
    fix n assume "n < LENGTH(16)"
    with a show "bit (m AND c) n = bit c n" by (auto simp add: bit_and_iff)
  qed
qed

lemma every_connected_replied_iff:
  assumes "\<And>k. bit mym k \<longleftrightarrow>
     bit me k \<or> (k < 16 \<and> (\<exists>p \<in> set ps. accepted ts p \<and> unat (SenderID (header p)) = k))"
  shows "(mym AND cm) = cm \<longleftrightarrow> every_connected_replied ts me cm ps"
  unfolding mask_covers_iff every_connected_replied_def list_all_iff list_ex_iff
  using assms by auto

lemma aidmask_covered_iff:
  assumes "\<And>k. bit ret k \<longleftrightarrow> k < 16 \<and> (\<exists>p \<in> set ps. counted ts p k)"
  shows "(ret AND am) = am \<longleftrightarrow> aidmask_covered ts am ps"
  unfolding mask_covers_iff aidmask_covered_def list_all_iff list_ex_iff
  using assms by auto

lemma drain_skip:
  "\<not> accepted ts p \<Longrightarrow>
     drain nslots ts am cm (p # q) ret mym = drained p [] (drain nslots ts am cm q ret mym)"
  by (auto simp add: accepted_def)

lemma drain_accept:
  "accepted ts p \<Longrightarrow>
     drain nslots ts am cm (p # q) ret mym
       = (case collect nslots p ret of
             Inl e \<Rightarrow> Inl e
           | Inr (ret1, c1) \<Rightarrow>
               if 32 \<le> unat (SenderID (header p)) then Inl UndefinedShift
               else if ((mym OR ucast (push_bit (unat (SenderID (header p))) (1 :: u32))) AND cm) = cm
                       \<or> (ret1 AND am) = am
                 then Inr (True, ret1, mym OR ucast (push_bit (unat (SenderID (header p))) (1 :: u32)),
                           c1, q, [p])
               else drained p c1 (drain nslots ts am cm q ret1
                      (mym OR ucast (push_bit (unat (SenderID (header p))) (1 :: u32)))))"
  by (auto simp add: accepted_def Let_def split: sum.splits)

lemma drained_Inr:
  "drained p c1 r = Inr (fl, ret', mym', c, rest, d) \<Longrightarrow>
     \<exists>c' d'. r = Inr (fl, ret', mym', c', rest, d') \<and> d = p # d' \<and> c = c1 @ c'"
  by (auto simp add: drained_def split: sum.splits)

lemma drain_trace:
  assumes "drain nslots ts am cm q ret mym = Inr (fl, ret', mym', c, rest, d)"
    and "\<And>k. bit ret k \<longleftrightarrow> k < 16 \<and> (\<exists>p \<in> set d0. counted ts p k)"
    and "\<And>k. bit mym k \<longleftrightarrow>
           bit me k \<or> (k < 16 \<and> (\<exists>p \<in> set d0. accepted ts p \<and> unat (SenderID (header p)) = k))"
  shows "q = d @ rest
     \<and> (\<forall>k. bit ret' k \<longleftrightarrow> k < 16 \<and> (\<exists>p \<in> set (d0 @ d). counted ts p k))
     \<and> (\<forall>k. bit mym' k \<longleftrightarrow>
           bit me k \<or> (k < 16 \<and> (\<exists>p \<in> set (d0 @ d). accepted ts p \<and> unat (SenderID (header p)) = k)))
     \<and> (fl \<longrightarrow> d \<noteq> [] \<and> accepted ts (last d)
              \<and> (every_connected_replied ts me cm (d0 @ d) \<or> aidmask_covered ts am (d0 @ d)))
     \<and> (\<not> fl \<longrightarrow> rest = [])
     \<and> (\<forall>n<length d. accepted ts (d ! n) \<and> (Suc n < length d \<or> \<not> fl) \<longrightarrow>
           \<not> every_connected_replied ts me cm (d0 @ take (Suc n) d)
           \<and> \<not> aidmask_covered ts am (d0 @ take (Suc n) d))"
  using assms
proof (induction q arbitrary: ret mym d0 c d)
  case Nil
  then show ?case by simp
next
  case (Cons p q)
  note ir = Cons.prems(2) and im = Cons.prems(3)
  show ?case
  proof (cases "accepted ts p")
    case False
    then have nc: "\<not> counted ts p k" for k by (auto simp add: counted_def accepted_def)
    from Cons.prems(1) drain_skip [OF False] have
      "drained p [] (drain nslots ts am cm q ret mym) = Inr (fl, ret', mym', c, rest, d)"
      by simp
    from drained_Inr [OF this] obtain c' d' where
      r: "drain nslots ts am cm q ret mym = Inr (fl, ret', mym', c', rest, d')"
      and d: "d = p # d'"
      by blast
    have ir1: "bit ret k \<longleftrightarrow> k < 16 \<and> (\<exists>x \<in> set (d0 @ [p]). counted ts x k)" for k
      using ir [of k] nc by auto
    have im1: "bit mym k \<longleftrightarrow> bit me k \<or> (k < 16
         \<and> (\<exists>x \<in> set (d0 @ [p]). accepted ts x \<and> unat (SenderID (header x)) = k))" for k
      using im [of k] False by auto
    note ih = Cons.IH [OF r ir1 im1]
    have n: "\<not> every_connected_replied ts me cm (d0 @ take (Suc n) d)
           \<and> \<not> aidmask_covered ts am (d0 @ take (Suc n) d)"
      if "n < length d" "accepted ts (d ! n)" "Suc n < length d \<or> \<not> fl" for n
    proof (cases n)
      case 0
      with that d False show ?thesis by simp
    next
      case (Suc m)
      with that d have "m < length d'" "accepted ts (d' ! m)" "Suc m < length d' \<or> \<not> fl"
        by simp_all
      with ih have "\<not> every_connected_replied ts me cm ((d0 @ [p]) @ take (Suc m) d')
           \<and> \<not> aidmask_covered ts am ((d0 @ [p]) @ take (Suc m) d')"
        by blast
      with Suc d show ?thesis by simp
    qed
    from ih d have "(p # q) = d @ rest"
      "\<forall>k. bit ret' k \<longleftrightarrow> k < 16 \<and> (\<exists>p \<in> set (d0 @ d). counted ts p k)"
      "\<forall>k. bit mym' k \<longleftrightarrow>
           bit me k \<or> (k < 16 \<and> (\<exists>p \<in> set (d0 @ d). accepted ts p \<and> unat (SenderID (header p)) = k))"
      "fl \<longrightarrow> d \<noteq> [] \<and> accepted ts (last d)
              \<and> (every_connected_replied ts me cm (d0 @ d) \<or> aidmask_covered ts am (d0 @ d))"
      "\<not> fl \<longrightarrow> rest = []"
      by simp_all
    with n show ?thesis by blast
  next
    case True
    let ?m = "mym OR ucast (push_bit (unat (SenderID (header p))) (1 :: u32))"
    from True have ty: "(Type (header p) AND 0xFFFF) = 2"
      and tm: "\<not> Timestamp (header p) < ts - 0x100000" by (simp_all add: accepted_def)
    from Cons.prems(1) drain_accept [OF True, of nslots am cm q ret mym]
    have eq: "(case collect nslots p ret of
             Inl e \<Rightarrow> Inl e
           | Inr (ret1, c1) \<Rightarrow>
               if 32 \<le> unat (SenderID (header p)) then Inl UndefinedShift
               else if (?m AND cm) = cm \<or> (ret1 AND am) = am
                 then Inr (True, ret1, ?m, c1, q, [p])
               else drained p c1 (drain nslots ts am cm q ret1 ?m))
        = Inr (fl, ret', mym', c, rest, d)"
      by simp
    then obtain ret1 c1 where col: "collect nslots p ret = Inr (ret1, c1)"
      by (auto split: sum.splits)
    from eq col have sh: "\<not> 32 \<le> unat (SenderID (header p))"
      by (auto split: if_splits)
    have ir1: "bit ret1 k \<longleftrightarrow> k < 16 \<and> (\<exists>x \<in> set (d0 @ [p]). counted ts x k)" for k
      using collect_bits [OF col ty tm, of k] ir [of k] by auto
    have im1: "bit ?m k \<longleftrightarrow> bit me k \<or> (k < 16
         \<and> (\<exists>x \<in> set (d0 @ [p]). accepted ts x \<and> unat (SenderID (header x)) = k))" for k
    proof -
      have "bit ?m k \<longleftrightarrow> bit mym k
          \<or> (k = unat (SenderID (header p)) \<and> unat (SenderID (header p)) < 16)"
        by (simp only: bit_or_iff bit_aid_mask)
      with im [of k] True show ?thesis by auto
    qed
    have ca: "(?m AND cm) = cm \<longleftrightarrow> every_connected_replied ts me cm (d0 @ [p])"
      by (rule every_connected_replied_iff) (rule im1)
    have cb: "(ret1 AND am) = am \<longleftrightarrow> aidmask_covered ts am (d0 @ [p])"
      by (rule aidmask_covered_iff) (rule ir1)
    show ?thesis
    proof (cases "(?m AND cm) = cm \<or> (ret1 AND am) = am")
      case c: True
      with eq col sh have e: "fl" "ret' = ret1" "mym' = ?m" "rest = q" "d = [p]"
        by auto
      from c ca cb have "every_connected_replied ts me cm (d0 @ [p])
          \<or> aidmask_covered ts am (d0 @ [p])" by simp
      with e ir1 im1 True show ?thesis by simp
    next
      case c: False
      with eq col sh have
        "drained p c1 (drain nslots ts am cm q ret1 ?m) = Inr (fl, ret', mym', c, rest, d)"
        by simp
      from drained_Inr [OF this] obtain c' d' where
        r: "drain nslots ts am cm q ret1 ?m = Inr (fl, ret', mym', c', rest, d')"
        and d: "d = p # d'"
        by blast
      note ih = Cons.IH [OF r ir1 im1]
      from c ca cb have nc: "\<not> every_connected_replied ts me cm (d0 @ [p])"
        "\<not> aidmask_covered ts am (d0 @ [p])" by simp_all
      have n: "\<not> every_connected_replied ts me cm (d0 @ take (Suc n) d)
           \<and> \<not> aidmask_covered ts am (d0 @ take (Suc n) d)"
        if "n < length d" "accepted ts (d ! n)" "Suc n < length d \<or> \<not> fl" for n
      proof (cases n)
        case 0
        with d nc show ?thesis by simp
      next
        case (Suc m)
        with that d have "m < length d'" "accepted ts (d' ! m)" "Suc m < length d' \<or> \<not> fl"
          by simp_all
        with ih have "\<not> every_connected_replied ts me cm ((d0 @ [p]) @ take (Suc m) d')
           \<and> \<not> aidmask_covered ts am ((d0 @ [p]) @ take (Suc m) d')"
          by blast
        with Suc d show ?thesis by simp
      qed
      from ih d have "(p # q) = d @ rest"
        "\<forall>k. bit ret' k \<longleftrightarrow> k < 16 \<and> (\<exists>p \<in> set (d0 @ d). counted ts p k)"
        "\<forall>k. bit mym' k \<longleftrightarrow>
           bit me k \<or> (k < 16 \<and> (\<exists>p \<in> set (d0 @ d). accepted ts p \<and> unat (SenderID (header p)) = k))"
        "fl \<longrightarrow> d \<noteq> [] \<and> accepted ts (last d)
              \<and> (every_connected_replied ts me cm (d0 @ d) \<or> aidmask_covered ts am (d0 @ d))"
        "\<not> fl \<longrightarrow> rest = []"
        by simp_all
      with n show ?thesis by blast
    qed
  qed
qed

lemma observed_connmask_Cons:
  "observed_connmask q (r # rs)
     = replicate (length (q @ t_arrived r)) (t_connmask r) @ observed_connmask [] rs"
  by (simp add: observed_connmask_def replicate_add split: list.splits)

lemma observed_connmask_nth:
  "n < length (q @ t_arrived r) \<Longrightarrow> observed_connmask q (r # rs) ! n = t_connmask r"
  "length (q @ t_arrived r) \<le> n \<Longrightarrow>
     observed_connmask q (r # rs) ! n = observed_connmask [] rs ! (n - length (q @ t_arrived r))"
  unfolding observed_connmask_Cons by (simp_all add: nth_append)

lemma reply_loop_trace:
  assumes "reply_loop nslots ts am t0 tmo ticks q ret mym = Some (Inr (ret', c, rest, d, sl))"
    and "\<And>k. bit ret k \<longleftrightarrow> k < 16 \<and> (\<exists>p \<in> set d0. counted ts p k)"
    and "\<And>k. bit mym k \<longleftrightarrow>
           bit me k \<or> (k < 16 \<and> (\<exists>p \<in> set d0. accepted ts p \<and> unat (SenderID (header p)) = k))"
  shows "sl < length ticks
     \<and> (\<forall>i. i < sl \<longrightarrow> \<not> tmo - sint (t_clock (ticks ! i) - t0) \<le> 0)
     \<and> (\<forall>n. Suc n < length d \<and> accepted ts (d ! n) \<longrightarrow>
           \<not> every_connected_replied ts me (observed_connmask q ticks ! n) (d0 @ take (Suc n) d)
           \<and> \<not> aidmask_covered ts am (d0 @ take (Suc n) d))
     \<and> (if d \<noteq> [] \<and> accepted ts (last d)
            \<and> (every_connected_replied ts me (observed_connmask q ticks ! (length d - 1)) (d0 @ d)
               \<or> aidmask_covered ts am (d0 @ d))
         then sl = 0 \<or> length (q @ concat (map t_arrived (take sl ticks))) < length d
         else rest = [] \<and> tmo - sint (t_clock (ticks ! sl) - t0) \<le> 0)"
  using assms
proof (induction ticks arbitrary: q ret mym d0 ret' rest c d sl)
  case Nil
  then show ?case by simp
next
  case (Cons r rs)
  note ir = Cons.prems(2) and im = Cons.prems(3)
  let ?cm = "t_connmask r"
  let ?q = "q @ t_arrived r"
  from Cons.prems(1) obtain x where
    "drain nslots ts am ?cm ?q ret mym = Inr x"
    by (cases "drain nslots ts am ?cm ?q ret mym") simp_all
  then obtain fl ret1 mym1 c1 rest1 d1 where
    dr: "drain nslots ts am ?cm ?q ret mym = Inr (fl, ret1, mym1, c1, rest1, d1)"
    by (cases x) auto
  from drain_trace [OF dr ir im] have
    q: "?q = d1 @ rest1"
    and ir1: "\<And>k. bit ret1 k \<longleftrightarrow> k < 16 \<and> (\<exists>p \<in> set (d0 @ d1). counted ts p k)"
    and im1: "\<And>k. bit mym1 k \<longleftrightarrow> bit me k \<or> (k < 16
          \<and> (\<exists>p \<in> set (d0 @ d1). accepted ts p \<and> unat (SenderID (header p)) = k))"
    and ex: "fl \<Longrightarrow> d1 \<noteq> [] \<and> accepted ts (last d1)
              \<and> (every_connected_replied ts me ?cm (d0 @ d1) \<or> aidmask_covered ts am (d0 @ d1))"
    and em: "\<not> fl \<Longrightarrow> rest1 = []"
    and no: "\<And>n. n < length d1 \<Longrightarrow> accepted ts (d1 ! n) \<Longrightarrow> Suc n < length d1 \<or> \<not> fl \<Longrightarrow>
           \<not> every_connected_replied ts me ?cm (d0 @ take (Suc n) d1)
           \<and> \<not> aidmask_covered ts am (d0 @ take (Suc n) d1)"
    by blast+
  from q have len1: "length d1 \<le> length ?q" by simp
  have cm1: "observed_connmask q (r # rs) ! n = ?cm" if "n < length d1" for n
    using that len1 by (intro observed_connmask_nth(1)) simp
  show ?case
  proof (cases "fl \<or> tmo - sint (t_clock r - t0) \<le> 0")
    case True
    with Cons.prems(1) dr have e: "ret' = ret1" "rest = rest1" "d = d1" "sl = 0"
      by (auto split: if_splits)
    have N: "\<not> every_connected_replied ts me (observed_connmask q (r # rs) ! n)
                 (d0 @ take (Suc n) d)
           \<and> \<not> aidmask_covered ts am (d0 @ take (Suc n) d)"
      if "Suc n < length d" "accepted ts (d ! n)" for n
      using that no [of n] cm1 [of n] e by simp
    have E: "rest = [] \<and> tmo - sint (t_clock ((r # rs) ! sl) - t0) \<le> 0"
      if "\<not> (d \<noteq> [] \<and> accepted ts (last d)
            \<and> (every_connected_replied ts me
                  (observed_connmask q (r # rs) ! (length d - 1)) (d0 @ d)
               \<or> aidmask_covered ts am (d0 @ d)))"
    proof (cases fl)
      case fl: True
      from ex [OF fl] have "d1 \<noteq> []" by simp
      then have "length d1 - 1 < length d1" by simp
      from cm1 [OF this] ex [OF fl] that e show ?thesis by simp
    next
      case False
      with em True e show ?thesis by simp
    qed
    from N E e show ?thesis by auto
  next
    case False
    then have nf: "\<not> fl" and nt: "\<not> tmo - sint (t_clock r - t0) \<le> 0" by simp_all
    from em [OF nf] q have r1: "rest1 = []" and d1: "d1 = ?q" by simp_all
    from Cons.prems(1) dr False obtain ret2 c2 rest2 d2 sl2 where
      rl: "reply_loop nslots ts am t0 tmo rs rest1 ret1 mym1
             = Some (Inr (ret2, c2, rest2, d2, sl2))"
      and e: "ret' = ret2" "rest = rest2" "d = d1 @ d2" "sl = Suc sl2"
      by (auto split: option.splits sum.splits)
    from Cons.IH [OF rl ir1 im1] r1 have
      ih1: "sl2 < length rs"
      and ih2: "\<And>i. i < sl2 \<Longrightarrow> \<not> tmo - sint (t_clock (rs ! i) - t0) \<le> 0"
      and ih3: "\<And>n. Suc n < length d2 \<Longrightarrow> accepted ts (d2 ! n) \<Longrightarrow>
           \<not> every_connected_replied ts me (observed_connmask [] rs ! n)
                ((d0 @ d1) @ take (Suc n) d2)
           \<and> \<not> aidmask_covered ts am ((d0 @ d1) @ take (Suc n) d2)"
      and ih4: "if d2 \<noteq> [] \<and> accepted ts (last d2)
            \<and> (every_connected_replied ts me (observed_connmask [] rs ! (length d2 - 1))
                  ((d0 @ d1) @ d2)
               \<or> aidmask_covered ts am ((d0 @ d1) @ d2))
         then sl2 = 0 \<or> length ([] @ concat (map t_arrived (take sl2 rs))) < length d2
         else rest2 = [] \<and> tmo - sint (t_clock (rs ! sl2) - t0) \<le> 0"
      by blast+
    have cm2: "observed_connmask q (r # rs) ! (length d1 + m) = observed_connmask [] rs ! m"
      for m
      using observed_connmask_nth(2) [of q r "length d1 + m" rs] d1 by simp
    have T: "\<not> tmo - sint (t_clock ((r # rs) ! i) - t0) \<le> 0" if "i < sl" for i
      using that e nt ih2 by (cases i) simp_all
    have N: "\<not> every_connected_replied ts me (observed_connmask q (r # rs) ! n)
                 (d0 @ take (Suc n) d)
           \<and> \<not> aidmask_covered ts am (d0 @ take (Suc n) d)"
      if "Suc n < length d" "accepted ts (d ! n)" for n
    proof (cases "n < length d1")
      case True
      with that e have "accepted ts (d1 ! n)" by (simp add: nth_append)
      from no [OF True this] nf cm1 [OF True] True e show ?thesis by simp
    next
      case False
      define m where "m = n - length d1"
      with False have n: "n = length d1 + m" by simp
      with that e have "Suc m < length d2" "accepted ts (d2 ! m)" by (simp_all add: nth_append)
      from ih3 [OF this] cm2 [of m] n e show ?thesis by simp
    qed
    have E: "if d \<noteq> [] \<and> accepted ts (last d)
            \<and> (every_connected_replied ts me
                  (observed_connmask q (r # rs) ! (length d - 1)) (d0 @ d)
               \<or> aidmask_covered ts am (d0 @ d))
         then sl = 0 \<or> length (q @ concat (map t_arrived (take sl (r # rs)))) < length d
         else rest = [] \<and> tmo - sint (t_clock ((r # rs) ! sl) - t0) \<le> 0"
    proof (cases "d2 = []")
      case True
      with ih4 have t: "rest2 = [] \<and> tmo - sint (t_clock (rs ! sl2) - t0) \<le> 0" by simp
      have nL: "\<not> (d \<noteq> [] \<and> accepted ts (last d)
            \<and> (every_connected_replied ts me
                  (observed_connmask q (r # rs) ! (length d - 1)) (d0 @ d)
               \<or> aidmask_covered ts am (d0 @ d)))"
      proof
        assume a: "d \<noteq> [] \<and> accepted ts (last d)
            \<and> (every_connected_replied ts me
                  (observed_connmask q (r # rs) ! (length d - 1)) (d0 @ d)
               \<or> aidmask_covered ts am (d0 @ d))"
        with True e have ne: "d1 \<noteq> []" by simp
        then have l: "length d1 - 1 < length d1" by simp
        from a True e ne have "accepted ts (d1 ! (length d1 - 1))" by (simp add: last_conv_nth)
        from no [OF l this] nf ne have
          "\<not> every_connected_replied ts me ?cm (d0 @ d1) \<and> \<not> aidmask_covered ts am (d0 @ d1)"
          by simp
        with a cm1 [OF l] True e show False by simp
      qed
      from t e have "rest = [] \<and> tmo - sint (t_clock ((r # rs) ! sl) - t0) \<le> 0" by simp
      then show ?thesis unfolding if_not_P [OF nL] .
    next
      case False
      then have l: "length d - 1 = length d1 + (length d2 - 1)" using e by (cases d2) simp_all
      have len: "length (q @ concat (map t_arrived (take sl (r # rs))))
          = length d1 + length (concat (map t_arrived (take sl2 rs)))"
        using e d1 by simp
      from False e have la: "last d = last d2" and ne: "d \<noteq> []" by simp_all
      have cmE: "observed_connmask q (r # rs) ! (length d - 1)
          = observed_connmask [] rs ! (length d2 - 1)"
        unfolding l by (rule cm2)
      have app: "d0 @ d = (d0 @ d1) @ d2" using e by simp
      let ?L2 = "d2 \<noteq> [] \<and> accepted ts (last d2)
            \<and> (every_connected_replied ts me (observed_connmask [] rs ! (length d2 - 1))
                  ((d0 @ d1) @ d2)
               \<or> aidmask_covered ts am ((d0 @ d1) @ d2))"
      let ?L = "d \<noteq> [] \<and> accepted ts (last d)
            \<and> (every_connected_replied ts me
                  (observed_connmask q (r # rs) ! (length d - 1)) (d0 @ d)
               \<or> aidmask_covered ts am (d0 @ d))"
      have L: "?L \<longleftrightarrow> ?L2"
        unfolding cmE la app using ne False by blast
      show ?thesis
      proof (cases ?L2)
        case True
        from ih4 have "sl2 = 0 \<or> length ([] @ concat (map t_arrived (take sl2 rs))) < length d2"
          unfolding if_P [OF True] .
        with False have "length d1 + length (concat (map t_arrived (take sl2 rs)))
            < length d1 + length d2"
          by auto
        then have g: "sl = 0 \<or> length (q @ concat (map t_arrived (take sl (r # rs)))) < length d"
          unfolding len using e by simp
        from True L have l1: ?L by blast
        from g show ?thesis unfolding if_P [OF l1] .
      next
        case F: False
        from ih4 have "rest2 = [] \<and> tmo - sint (t_clock (rs ! sl2) - t0) \<le> 0"
          unfolding if_not_P [OF F] .
        then have g: "rest = [] \<and> tmo - sint (t_clock ((r # rs) ! sl) - t0) \<le> 0"
          using e by simp
        from F L have l0: "\<not> ?L" by blast
        from g show ?thesis unfolding if_not_P [OF l0] .
      qed
    qed
    from ih1 e have "sl < length (r # rs)" by simp
    with T N E show ?thesis by blast
  qed
qed

lemma reply_loop_trace0:
  assumes "reply_loop nslots ts am t0 tmo ticks q 0 me = Some (Inr (ret', c, rest, d, sl))"
  shows "sl < length ticks
     \<and> (\<forall>i. i < sl \<longrightarrow> \<not> tmo - sint (t_clock (ticks ! i) - t0) \<le> 0)
     \<and> (\<forall>n. Suc n < length d \<and> accepted ts (d ! n) \<longrightarrow>
           \<not> every_connected_replied ts me (observed_connmask q ticks ! n) (take (Suc n) d)
           \<and> \<not> aidmask_covered ts am (take (Suc n) d))
     \<and> (if d \<noteq> [] \<and> accepted ts (last d)
            \<and> (every_connected_replied ts me (observed_connmask q ticks ! (length d - 1)) d
               \<or> aidmask_covered ts am d)
         then sl = 0 \<or> length (q @ concat (map t_arrived (take sl ticks))) < length d
         else rest = [] \<and> tmo - sint (t_clock (ticks ! sl) - t0) \<le> 0)"
proof -
  have ir: "bit (0 :: u16) k \<longleftrightarrow> k < 16 \<and> (\<exists>p \<in> set []. counted ts p k)" for k by simp
  have im: "bit me k \<longleftrightarrow> bit me k
      \<or> (k < 16 \<and> (\<exists>p \<in> set []. accepted ts p \<and> unat (SenderID (header p)) = k))" for k
    by simp
  from reply_loop_trace [OF assms ir im] show ?thesis unfolding append_Nil .
qed

text \<open>
  Claim C3, as amended. When \<^verbatim>\<open>RecvReplies\<close> returns a mask, bit \<open>k\<close> is set if and only if
  it dequeued a reply (type 2 in the low 16 bits) with association id \<open>k < 16\<close>, an emulated
  timestamp not below \<open>timestamp - 2^20\<close> and a payload of non-zero length; so it returns 0
  when it dequeued no such reply. It returns 0 at once, dequeuing nothing, when no player
  but the local one is connected. Otherwise the packets it dequeued and the queue it leaves
  are the queue it found followed by what arrived during its passes, and it terminates as
  soon as (a) every currently-connected player has replied or (b) the mask covers
  \<open>aidmask\<close>, both tested after each accepted reply, or (c) the MP receive timeout has
  elapsed, tested after each pass over the queue:
  \<^item> no accepted reply dequeued before the last packet met (a) or (b), and no pass before
    the last ended with the clock past the timeout;
  \<^item> if the last packet dequeued is an accepted reply that meets (a) or (b), the function
    returned in the pass that dequeued it, leaving the packets behind it in the queue;
  \<^item> if it is not, the queue is drained and the clock read after the last pass is past the
    timeout.

  The function does return once the clock read after a pass is past the timeout.
\<close>

theorem RecvReplies_mask_of_counted_replies:
  "(RecvReplies nslots ticks t0 ts am s = Some (Inr (ret, c, s')) \<longrightarrow>
      take (length (Destroyed s)) (Destroyed s') = Destroyed s
      \<and> (\<forall>k. bit ret k \<longleftrightarrow>
             k < 16 \<and> list_ex (\<lambda>p. counted ts p k)
                        (drop (length (Destroyed s)) (Destroyed s'))))
   \<and> (Host s \<and> 0 \<le> MyPlayerID s \<and> MyPlayerID s < 32
        \<and> (ucast (push_bit (nat (MyPlayerID s)) (1 :: u32)) AND ConnectedBitmask s)
            = ConnectedBitmask s \<longrightarrow>
      RecvReplies nslots ticks t0 ts am s = Some (Inr (0, [], s)))
   \<and> (Host s \<and> 0 \<le> MyPlayerID s \<and> MyPlayerID s < 32
        \<and> (ucast (push_bit (nat (MyPlayerID s)) (1 :: u32)) AND ConnectedBitmask s)
            \<noteq> ConnectedBitmask s
        \<and> RecvReplies nslots ticks t0 ts am s = Some (Inr (ret, c, s')) \<longrightarrow>
      drop (length (Destroyed s)) (Destroyed s') @ RXQueue s'
        = RXQueue s @ concat (map t_arrived (take (Suc (Slept s' - Slept s)) ticks))
      \<and> (let d = drop (length (Destroyed s)) (Destroyed s');
              sl = Slept s' - Slept s;
              me = ucast (push_bit (nat (MyPlayerID s)) (1 :: u32));
              cms = observed_connmask (RXQueue s) ticks
          in sl < length ticks
             \<and> (\<forall>i. i < sl \<longrightarrow> \<not> MPRecvTimeout s - sint (t_clock (ticks ! i) - t0) \<le> 0)
             \<and> (\<forall>n. Suc n < length d \<and> accepted ts (d ! n) \<longrightarrow>
                   \<not> every_connected_replied ts me (cms ! n) (take (Suc n) d)
                   \<and> \<not> aidmask_covered ts am (take (Suc n) d))
             \<and> (if d \<noteq> [] \<and> accepted ts (last d)
                    \<and> (every_connected_replied ts me (cms ! (length d - 1)) d
                       \<or> aidmask_covered ts am d)
                 then sl = 0
                      \<or> length (RXQueue s @ concat (map t_arrived (take sl ticks))) < length d
                 else RXQueue s' = []
                      \<and> MPRecvTimeout s - sint (t_clock (ticks ! sl) - t0) \<le> 0)))
   \<and> (list_ex (\<lambda>r. MPRecvTimeout s - sint (t_clock r - t0) \<le> 0) ticks \<longrightarrow>
      RecvReplies nslots ticks t0 ts am s \<noteq> None)
   \<and> (drain nslots ts am cm q r0 m0 = Inr (True, ret', mym', c', rest, d) \<longrightarrow>
        (mym' AND cm) = cm \<or> (ret' AND am) = am)"
proof -
  let ?me = "ucast (push_bit (nat (MyPlayerID s)) (1 :: u32)) :: u16"
  let ?loop = "reply_loop nslots ts am t0 (MPRecvTimeout s) ticks (RXQueue s) 0 ?me"
  have early: "\<not> Host s \<or> (0 \<le> MyPlayerID s \<and> MyPlayerID s < 32
        \<and> (?me AND ConnectedBitmask s) = ConnectedBitmask s)
      \<Longrightarrow> RecvReplies nslots ticks t0 ts am s = Some (Inr (0, [], s))"
    by (auto simp add: RecvReplies_def Let_def)
  have late: "RecvReplies nslots ticks t0 ts am s
      = (case ?loop of
           None \<Rightarrow> None
         | Some (Inl e) \<Rightarrow> Some (Inl e)
         | Some (Inr (ret, c, rest, d, sl)) \<Rightarrow>
             Some (Inr (ret, c, s\<lparr>RXQueue := rest, Destroyed := Destroyed s @ d,
                                  Slept := Slept s + sl\<rparr>)))"
    if "Host s" "0 \<le> MyPlayerID s" "MyPlayerID s < 32"
      "(?me AND ConnectedBitmask s) \<noteq> ConnectedBitmask s"
    using that by (simp add: RecvReplies_def Let_def)
  have fault: "RecvReplies nslots ticks t0 ts am s = Some (Inl UndefinedShift)"
    if "Host s" "\<not> (0 \<le> MyPlayerID s \<and> MyPlayerID s < 32)"
    using that by (auto simp add: RecvReplies_def)
  have A: "take (length (Destroyed s)) (Destroyed s') = Destroyed s
      \<and> (\<forall>k. bit ret k \<longleftrightarrow>
             k < 16 \<and> list_ex (\<lambda>p. counted ts p k)
                        (drop (length (Destroyed s)) (Destroyed s')))
      \<and> ((?me AND ConnectedBitmask s) \<noteq> ConnectedBitmask s \<and> Host s
            \<and> 0 \<le> MyPlayerID s \<and> MyPlayerID s < 32 \<longrightarrow>
           drop (length (Destroyed s)) (Destroyed s') @ RXQueue s'
             = RXQueue s @ concat (map t_arrived (take (Suc (Slept s' - Slept s)) ticks)))"
    if r: "RecvReplies nslots ticks t0 ts am s = Some (Inr (ret, c, s'))"
  proof (cases "\<not> Host s \<or> (0 \<le> MyPlayerID s \<and> MyPlayerID s < 32
        \<and> (?me AND ConnectedBitmask s) = ConnectedBitmask s)")
    case True
    from early [OF True] r have "ret = 0" "s' = s" by simp_all
    with True show ?thesis by auto
  next
    case False
    then have h: "Host s" and ne: "(?me AND ConnectedBitmask s) \<noteq> ConnectedBitmask s
        \<or> \<not> (0 \<le> MyPlayerID s \<and> MyPlayerID s < 32)"
      by auto
    from fault [OF h] r have idr: "0 \<le> MyPlayerID s" "MyPlayerID s < 32" by auto
    with ne have ne': "(?me AND ConnectedBitmask s) \<noteq> ConnectedBitmask s" by simp
    note l = late [OF h idr ne']
    from r l obtain rest d sl where
      lp: "?loop = Some (Inr (ret, c, rest, d, sl))"
      and s': "s' = s\<lparr>RXQueue := rest, Destroyed := Destroyed s @ d, Slept := Slept s + sl\<rparr>"
      by (auto split: option.splits sum.splits)
    from reply_loop_bits [OF lp] show ?thesis
      by (simp add: s' list_ex_iff) blast
  qed
  have B: "(let d = drop (length (Destroyed s)) (Destroyed s');
              sl = Slept s' - Slept s;
              me = ?me;
              cms = observed_connmask (RXQueue s) ticks
          in sl < length ticks
             \<and> (\<forall>i. i < sl \<longrightarrow> \<not> MPRecvTimeout s - sint (t_clock (ticks ! i) - t0) \<le> 0)
             \<and> (\<forall>n. Suc n < length d \<and> accepted ts (d ! n) \<longrightarrow>
                   \<not> every_connected_replied ts me (cms ! n) (take (Suc n) d)
                   \<and> \<not> aidmask_covered ts am (take (Suc n) d))
             \<and> (if d \<noteq> [] \<and> accepted ts (last d)
                    \<and> (every_connected_replied ts me (cms ! (length d - 1)) d
                       \<or> aidmask_covered ts am d)
                 then sl = 0
                      \<or> length (RXQueue s @ concat (map t_arrived (take sl ticks))) < length d
                 else RXQueue s' = []
                      \<and> MPRecvTimeout s - sint (t_clock (ticks ! sl) - t0) \<le> 0))"
    if h: "Host s" and idr: "0 \<le> MyPlayerID s" "MyPlayerID s < 32"
      and ne: "(?me AND ConnectedBitmask s) \<noteq> ConnectedBitmask s"
      and r: "RecvReplies nslots ticks t0 ts am s = Some (Inr (ret, c, s'))"
  proof -
    note l = late [OF h idr ne]
    from r l obtain rest d sl where
      lp: "?loop = Some (Inr (ret, c, rest, d, sl))"
      and s': "s' = s\<lparr>RXQueue := rest, Destroyed := Destroyed s @ d, Slept := Slept s + sl\<rparr>"
      by (auto split: option.splits sum.splits)
    have f: "drop (length (Destroyed s)) (Destroyed s') = d" "Slept s' - Slept s = sl"
      "RXQueue s' = rest"
      by (simp_all add: s')
    from reply_loop_trace0 [OF lp] show ?thesis
      unfolding Let_def f .
  qed
  have T: "RecvReplies nslots ticks t0 ts am s \<noteq> None"
    if t: "list_ex (\<lambda>r. MPRecvTimeout s - sint (t_clock r - t0) \<le> 0) ticks"
  proof (cases "Host s \<and> 0 \<le> MyPlayerID s \<and> MyPlayerID s < 32
        \<and> (?me AND ConnectedBitmask s) \<noteq> ConnectedBitmask s")
    case True
    then have l: "RecvReplies nslots ticks t0 ts am s
      = (case ?loop of
           None \<Rightarrow> None
         | Some (Inl e) \<Rightarrow> Some (Inl e)
         | Some (Inr (ret, c, rest, d, sl)) \<Rightarrow>
             Some (Inr (ret, c, s\<lparr>RXQueue := rest, Destroyed := Destroyed s @ d,
                                  Slept := Slept s + sl\<rparr>)))"
      by (intro late) simp_all
    from reply_loop_terminates [OF t, of nslots ts am "RXQueue s" 0 ?me]
    show ?thesis unfolding l by (auto split: option.splits sum.splits)
  next
    case False
    then show ?thesis by (auto simp add: RecvReplies_def Let_def)
  qed
  have D: "(mym' AND cm) = cm \<or> (ret' AND am) = am"
    if "drain nslots ts am cm q r0 m0 = Inr (True, ret', mym', c', rest, d)"
    using drain_bits [OF that] by simp
  from A early B T D show ?thesis by blast
qed

theorem RecvReplies_mask_of_counted_replies_witness:
  "(case RecvReplies 15 [tick_at 1100] 1100 0x200000 2 (lan_host [frame_packet, reply_packet]) of
      Some (Inr (ret, c, s')) \<Rightarrow>
        ret = 2 \<and> c = [(0, [0xAB])] \<and> Destroyed s' = [frame_packet, reply_packet]
    | _ \<Rightarrow> False)
   \<and> list_ex (\<lambda>p. counted 0x200000 p 1) [frame_packet, reply_packet]
   \<and> RecvReplies 15 [] 1100 0x200000 2 lan_alone = Some (Inr (0, [], lan_alone))
   \<and> list_ex (\<lambda>r. MPRecvTimeout (lan_host []) - sint (t_clock r - 1100) \<le> 0) [tick_at 1130]
   \<and> (case RecvReplies 15 [tick_at 1130] 1100 0x200000 2 (lan_host []) of
      Some (Inr (ret, c, s')) \<Rightarrow> ret = 0
    | _ \<Rightarrow> False)
   \<and> (case RecvReplies 15 [tick_at 1100] 1100 0x200000 2 (lan_host [reply_packet, frame_packet]) of
      Some (Inr (ret, c, s')) \<Rightarrow>
        ret = 2 \<and> Destroyed s' = [reply_packet] \<and> RXQueue s' = [frame_packet] \<and> Slept s' = 0
    | _ \<Rightarrow> False)
   \<and> accepted 0x200000 reply_packet
   \<and> (every_connected_replied 0x200000 1 3 [reply_packet]
        \<or> aidmask_covered 0x200000 2 [reply_packet])
   \<and> (case RecvReplies 15 [tick_at 1100, tick_at 1130] 1100 0x200000 2 (lan_host []) of
      Some (Inr (ret, c, s')) \<Rightarrow> ret = 0 \<and> Slept s' = 1
    | _ \<Rightarrow> False)
   \<and> \<not> MPRecvTimeout (lan_host []) - sint (t_clock (tick_at 1100) - 1100) \<le> 0"
proof -
  have "\<exists>c s'. RecvReplies 15 [tick_at 1100] 1100 0x200000 2
            (lan_host [frame_packet, reply_packet]) = Some (Inr (2, c, s'))
          \<and> c = [(0, [0xAB])] \<and> Destroyed s' = [frame_packet, reply_packet]"
    by (simp add: lan_eval tick_at_def)
  then obtain c s' where
    r: "RecvReplies 15 [tick_at 1100] 1100 0x200000 2
          (lan_host [frame_packet, reply_packet]) = Some (Inr (2, c, s'))"
    and c: "c = [(0, [0xAB])]" and d: "Destroyed s' = [frame_packet, reply_packet]"
    by blast
  have d0: "Destroyed (lan_host [frame_packet, reply_packet]) = []" by (simp add: lan_eval)
  from RecvReplies_mask_of_counted_replies
    [of 15 "[tick_at 1100]" 1100 "0x200000" 2 "lan_host [frame_packet, reply_packet]" 2 c s']
    r
  have "\<forall>k. bit (2 :: u16) k \<longleftrightarrow>
      k < 16 \<and> list_ex (\<lambda>p. counted 0x200000 p k)
        (drop (length (Destroyed (lan_host [frame_packet, reply_packet]))) (Destroyed s'))"
    by blast
  from this [rule_format, of 1] have a:
    "list_ex (\<lambda>p. counted 0x200000 p 1) [frame_packet, reply_packet]"
    by (simp add: d d0)
  have pre: "Host lan_alone" "MyPlayerID lan_alone = 0" "ConnectedBitmask lan_alone = 1"
    by (simp_all add: lan_alone_def lan_new_def)
  from RecvReplies_mask_of_counted_replies [of 15 "[]" 1100 "0x200000" 2 lan_alone] pre
  have b: "RecvReplies 15 [] 1100 0x200000 2 lan_alone = Some (Inr (0, [], lan_alone))"
    by simp
  have t: "list_ex (\<lambda>r. MPRecvTimeout (lan_host []) - sint (t_clock r - 1100) \<le> 0)
      [tick_at 1130]"
    by (simp add: lan_eval tick_at_def)
  from RecvReplies_mask_of_counted_replies
    [of 15 "[tick_at 1130]" 1100 "0x200000" 2 "lan_host []"] t
  have "RecvReplies 15 [tick_at 1130] 1100 0x200000 2 (lan_host []) \<noteq> None" by blast
  moreover have "case RecvReplies 15 [tick_at 1130] 1100 0x200000 2 (lan_host []) of
      Some (Inr (ret, c, s')) \<Rightarrow> ret = 0
    | Some (Inl e) \<Rightarrow> False
    | None \<Rightarrow> True"
    by (simp add: lan_eval tick_at_def)
  ultimately have e: "case RecvReplies 15 [tick_at 1130] 1100 0x200000 2 (lan_host []) of
      Some (Inr (ret, c, s')) \<Rightarrow> ret = 0
    | _ \<Rightarrow> False"
    by (auto split: option.splits sum.splits)
  let ?A = "lan_host [reply_packet, frame_packet]"
  have "\<exists>c1 s1. RecvReplies 15 [tick_at 1100] 1100 0x200000 2 ?A = Some (Inr (2, c1, s1))
          \<and> Destroyed s1 = [reply_packet] \<and> RXQueue s1 = [frame_packet] \<and> Slept s1 = 0"
    by (simp add: lan_eval tick_at_def)
  then obtain c1 s1 where
    r1: "RecvReplies 15 [tick_at 1100] 1100 0x200000 2 ?A = Some (Inr (2, c1, s1))"
    and f1: "Destroyed s1 = [reply_packet]" "RXQueue s1 = [frame_packet]" "Slept s1 = 0"
    by blast
  have preA: "Host ?A" "MyPlayerID ?A = 0" "ConnectedBitmask ?A = 3" "Destroyed ?A = []"
    "Slept ?A = 0" "RXQueue ?A = [reply_packet, frame_packet]"
    by (simp_all add: lan_eval)
  from RecvReplies_mask_of_counted_replies [of 15 "[tick_at 1100]" 1100 "0x200000" 2 ?A 2 c1 s1] r1 preA
  have "let d = drop (length (Destroyed ?A)) (Destroyed s1);
            sl = Slept s1 - Slept ?A;
            me = ucast (push_bit (nat (MyPlayerID ?A)) (1 :: u32));
            cms = observed_connmask (RXQueue ?A) [tick_at 1100]
        in sl < length [tick_at 1100]
           \<and> (\<forall>i. i < sl \<longrightarrow> \<not> MPRecvTimeout ?A - sint (t_clock ([tick_at 1100] ! i) - 1100) \<le> 0)
           \<and> (\<forall>n. Suc n < length d \<and> accepted 0x200000 (d ! n) \<longrightarrow>
                 \<not> every_connected_replied 0x200000 me (cms ! n) (take (Suc n) d)
                 \<and> \<not> aidmask_covered 0x200000 2 (take (Suc n) d))
           \<and> (if d \<noteq> [] \<and> accepted 0x200000 (last d)
                  \<and> (every_connected_replied 0x200000 me (cms ! (length d - 1)) d
                     \<or> aidmask_covered 0x200000 2 d)
               then sl = 0
                    \<or> length (RXQueue ?A @ concat (map t_arrived (take sl [tick_at 1100])))
                        < length d
               else RXQueue s1 = []
                    \<and> MPRecvTimeout ?A - sint (t_clock ([tick_at 1100] ! sl) - 1100) \<le> 0)"
    by simp
  then have g: "accepted 0x200000 reply_packet
      \<and> (every_connected_replied 0x200000 1 3 [reply_packet]
          \<or> aidmask_covered 0x200000 2 [reply_packet])"
    by (simp add: Let_def preA f1 observed_connmask_def tick_at_def split: if_splits)
  let ?B = "lan_host []"
  have "\<exists>c2 s2. RecvReplies 15 [tick_at 1100, tick_at 1130] 1100 0x200000 2 ?B
            = Some (Inr (0, c2, s2)) \<and> Slept s2 = 1 \<and> Destroyed s2 = []"
    by (simp add: lan_eval tick_at_def)
  then obtain c2 s2 where
    r2: "RecvReplies 15 [tick_at 1100, tick_at 1130] 1100 0x200000 2 ?B = Some (Inr (0, c2, s2))"
    and f2: "Slept s2 = 1" "Destroyed s2 = []"
    by blast
  have preB: "Host ?B" "MyPlayerID ?B = 0" "ConnectedBitmask ?B = 3" "Destroyed ?B = []"
    "Slept ?B = 0" "RXQueue ?B = []"
    by (simp_all add: lan_eval)
  from RecvReplies_mask_of_counted_replies [of 15 "[tick_at 1100, tick_at 1130]" 1100 "0x200000" 2 ?B 0 c2 s2] r2 preB
  have "let sl = Slept s2 - Slept ?B
        in \<forall>i. i < sl \<longrightarrow>
             \<not> MPRecvTimeout ?B - sint (t_clock ([tick_at 1100, tick_at 1130] ! i) - 1100) \<le> 0"
    by (simp add: Let_def)
  then have h: "\<not> MPRecvTimeout ?B - sint (t_clock (tick_at 1100) - 1100) \<le> 0"
    by (simp add: Let_def preB f2)
  from r c d a b t e r1 f1 g r2 f2 h show ?thesis by simp
qed


section \<open>LAN: the host's player table\<close>



lemma occupied_count:
  "length (filter P [0..<16]) = card ({i. P i} \<inter> {0..<16})"
  using distinct_length_filter [of "[0..<16]" P] by simp




lemma upt_16: "[0..<16] = [0, 1, 2, 3, 4, 5, 6, 7, 8, 9, 10, 11, 12, 13, 14, 15]"
  by (simp add: upt_rec)




text \<open>The table of a host just started counts its occupied slots, and a disconnect of a
  peer whose slot is occupied keeps it so.\<close>

lemma StartHost_consistent:
  "fst (StartHost inited created name n lan_new) \<Longrightarrow>
     table_consistent (snd (StartHost inited created name n lan_new))"
  by (auto simp add: StartHost_def table_consistent_def lan_new_def player_zero_def upt_16
      split: if_splits)

lemma disconnect_keeps_consistent:
  assumes c: "table_consistent s" and p: "PeerData s peer = Some slot" and r: "slot < 16"
    and occ: "Status (Players s slot) \<noteq> Player_None"
    and run: "ProcessHostEvent sz dec (Disconnect peer) s = Inr s'"
  shows "table_consistent s'"
proof -
  let ?occ = "\<lambda>i. Status (Players s i) \<noteq> Player_None"
  let ?pl = "(Players s)(slot := (Players s slot)\<lparr>ID := 0, Status := Player_None\<rparr>)"
  from run p have s': "NumPlayers s' = NumPlayers s - 1" "Players s' = ?pl"
    by (auto simp add: ProcessHostEvent_def Let_def HostUpdatePlayerList_def split: if_splits)
  have "{i. Status (?pl i) \<noteq> Player_None} \<inter> {0..<16}
      = ({i. ?occ i} \<inter> {0..<16}) - {slot}"
    by auto
  moreover have "slot \<in> {i. ?occ i} \<inter> {0..<16}" using occ r by simp
  ultimately have "card ({i. Status (?pl i) \<noteq> Player_None} \<inter> {0..<16})
      = card ({i. ?occ i} \<inter> {0..<16}) - 1"
    by simp
  moreover have "0 < card ({i. ?occ i} \<inter> {0..<16})"
    using \<open>slot \<in> {i. ?occ i} \<inter> {0..<16}\<close> by (auto simp add: card_gt_0_iff)
  ultimately show ?thesis
    using c by (simp add: table_consistent_def occupied_count s')
qed


end
